theory Spec2Isabelle
  imports Complex_Main "HOL-Library.Multiset"
begin

section \<open>Data model of \<^verbatim>\<open>state_store.py\<close>\<close>

text \<open>
  The session store of the Cambio service keeps every game as a Python dict with a fixed
  set of keys. The dicts are modelled as records, the module-level dict
  \<^verbatim>\<open>_game_store\<close> as a map from game ids to sessions, and every function that
  touches the store takes the store and returns the store it leaves behind.
  A Python exception is a value of \<open>py_error\<close>: a function that can raise returns
  \<open>py_error + 'a\<close>, and a function that can raise after it has started to mutate the
  store returns the store together with that sum.

  Cards are strings (rank token followed by one suit character). A move is the dict the
  caller sends: \<open>move_type\<close> is \<^verbatim>\<open>move.get("type")\<close> and \<open>slot\<close> is
  \<^verbatim>\<open>move.get("slot")\<close>, \<open>None\<close> when the key is missing or null. The request
  body is an untyped dict, so the slot is any JSON value (\<open>py_value\<close>). The kind is
  typed as a string: a kind of another type is only compared by \<^verbatim>\<open>==\<close> with the
  four names, equals none of them and is rejected as unknown like any other string.

  \<open>IntValueError\<close> and \<open>IntLimitError\<close> are the two \<^verbatim>\<open>ValueError\<close>s of \<^verbatim>\<open>int\<close>:
  an invalid literal, and a literal of more digits than the limit of 4300.
\<close>

datatype py_error =
    StopIteration
  | IndexError
  | TypeError
  | KeyError string
  | ValueError string
  | IntValueError string
  | IntLimitError nat

text \<open>
  The values JSON delivers, \<^verbatim>\<open>null\<close> apart. A number with a fraction or an exponent
  is a float: a finite one is the number it stands for, and Python's parser also reads
  the infinities and NaN. The elements of a list and the entries of an object are left
  out, no code reads them.
\<close>

datatype py_float = Finite real | Infinite bool | NaN

datatype py_value =
    PyInt int
  | PyBool bool
  | PyFloat py_float
  | PyStr string
  | PyList
  | PyDict

record card_slot =
  card_str :: string
  visible :: bool

record player =
  player_id :: string
  name :: string
  seat :: int
  hand :: "card_slot list"
  score :: int

record history_entry =
  turn :: int
  player :: string
  action :: string

record metadata_rec =
  started_at :: string
  round :: int

record state =
  game_id :: string
  variant :: string
  players :: "player list"
  draw_pile :: "string list"
  draw_pile_count :: int
  top_discard :: "string option"
  current_player :: string
  turn_phase :: string
  history :: "history_entry list"
  metadata :: metadata_rec

type_synonym game_store = "string \<rightharpoonup> state"

record move =
  move_type :: "string option"
  slot :: "py_value option"

text \<open>
  The dict \<^verbatim>\<open>apply_move\<close> returns: \<^verbatim>\<open>{"valid": False, "reason": r}\<close> is
  \<open>Rejected r\<close>; \<^verbatim>\<open>{"valid": True, "state": s}\<close> is \<open>Accepted s None\<close>; with the
  extra key \<^verbatim>\<open>"round_end": True\<close> it is \<open>Accepted s (Some True)\<close>.
\<close>

datatype move_result =
    Rejected "string option"
  | Accepted state "bool option"

section \<open>Python helpers\<close>

text \<open>The position of the first element that satisfies a predicate.\<close>

fun index_where :: "('a \<Rightarrow> bool) \<Rightarrow> 'a list \<Rightarrow> nat option" where
  "index_where P [] = None"
| "index_where P (x # xs) =
     (if P x then Some 0
      else (case index_where P xs of None \<Rightarrow> None | Some i \<Rightarrow> Some (Suc i)))"

text \<open>\<^verbatim>\<open>xs.index(x)\<close>: the first position holding a value equal to \<open>x\<close>.\<close>

definition py_list_index :: "'a \<Rightarrow> 'a list \<Rightarrow> nat option" where
  "py_list_index x xs = index_where (\<lambda>y. y = x) xs"

text \<open>
  \<^verbatim>\<open>xs[i]\<close> for a Python int \<open>i\<close>: a negative index counts from the end, an
  index out of range raises \<^verbatim>\<open>IndexError\<close>. \<open>py_position\<close> is the position read or
  written, if there is one.
\<close>

definition py_position :: "'a list \<Rightarrow> int \<Rightarrow> nat option" where
  "py_position xs i =
     (if 0 \<le> i then (if nat i < length xs then Some (nat i) else None)
      else if - i \<le> int (length xs) then Some (nat (int (length xs) + i))
      else None)"

text \<open>\<^verbatim>\<open>str(n)\<close> for a natural number and for an integer.\<close>

fun str_nat :: "nat \<Rightarrow> string" where
  "str_nat n =
     (if n < 10 then [''0123456789'' ! n]
      else str_nat (n div 10) @ [''0123456789'' ! (n mod 10)])"

declare str_nat.simps [simp del]

definition str_int :: "int \<Rightarrow> string" where
  "str_int i = (if i < 0 then CHR ''-'' # str_nat (nat (- i)) else str_nat (nat i))"

text \<open>
  \<^verbatim>\<open>int(s)\<close> on a string of ASCII characters, as CPython 3.11 reads it: white space
  at both ends is skipped (tab, line feed, vertical tab, form feed, carriage return and
  space), one sign is allowed, then comes a run of decimal digits that starts with a
  digit and in which single underscores may stand between two digits. An underscore in
  another place is an invalid literal; a run of more than 4300 digits exceeds the limit;
  anything left after the run is an invalid literal. (Python also reads the decimal
  digits and spaces of other scripts; card strings are ASCII.)
\<close>

definition is_digit :: "char \<Rightarrow> bool" where
  "is_digit c = (c \<in> set ''0123456789'')"

definition digit_val :: "char \<Rightarrow> nat" where
  "digit_val c = (case index_where (\<lambda>d. d = c) ''0123456789'' of None \<Rightarrow> 0 | Some v \<Rightarrow> v)"

definition is_space :: "char \<Rightarrow> bool" where
  "is_space c = (c \<in> set [CHR 0x09, CHR 0x0A, CHR 0x0B, CHR 0x0C, CHR 0x0D, CHR 0x20])"

text \<open>
  The run of digits and underscores at the front of a string: the number read so far,
  the count of its digits and what follows the run; \<open>None\<close> for a misplaced
  underscore.
\<close>

fun scan_run :: "nat \<Rightarrow> nat \<Rightarrow> string \<Rightarrow> (nat \<times> nat \<times> string) option" where
  "scan_run acc n [] = Some (acc, n, [])"
| "scan_run acc n (c # cs) =
     (if is_digit c then scan_run (10 * acc + digit_val c) (n + 1) cs
      else if c = CHR ''_'' then
        (if cs \<noteq> [] \<and> is_digit (hd cs) then scan_run acc n cs else None)
      else Some (acc, n, c # cs))"

definition parse_unsigned :: "string \<Rightarrow> string \<Rightarrow> py_error + nat" where
  "parse_unsigned s body =
     (if body \<noteq> [] \<and> is_digit (hd body) then
        (case scan_run 0 0 body of
           None \<Rightarrow> Inl (IntValueError s)
         | Some (v, n, rest) \<Rightarrow>
             if n > 4300 then Inl (IntLimitError n)
             else if rest \<noteq> [] then Inl (IntValueError s)
             else Inr v)
      else Inl (IntValueError s))"

definition py_int :: "string \<Rightarrow> py_error + int" where
  "py_int s =
     (let t = rev (dropWhile is_space (rev (dropWhile is_space s)))
      in case t of
           [] \<Rightarrow> Inl (IntValueError s)
         | c # cs \<Rightarrow>
             if c = CHR ''-'' then map_sum id (\<lambda>n. - int n) (parse_unsigned s cs)
             else if c = CHR ''+'' then map_sum id int (parse_unsigned s cs)
             else map_sum id int (parse_unsigned s t))"

section \<open>Deck and scoring\<close>

definition suits :: "string list" where
  "suits = [''H'', ''D'', ''C'', ''S'']"

definition ranks :: "string list" where
  "ranks = [''A'', ''2'', ''3'', ''4'', ''5'', ''6''] @
           [''7'', ''8'', ''9'', ''10'', ''J'', ''Q'', ''K'']"

text \<open>
  \<^verbatim>\<open>create_deck\<close>: the comprehension runs over the suits in the outer loop and the
  ranks in the inner one; \<^verbatim>\<open>random.shuffle\<close> is the parameter \<open>shuffle\<close>.
\<close>

definition ordered_deck :: "string list" where
  "ordered_deck = concat (map (\<lambda>suit. map (\<lambda>rank. rank @ suit) ranks) suits)"

definition create_deck :: "(string list \<Rightarrow> string list) \<Rightarrow> string list" where
  "create_deck shuffle = shuffle ordered_deck"

definition get_card_value :: "string \<Rightarrow> py_error + int" where
  "get_card_value c =
     (if c = [] then Inr 0
      else (let rank = butlast c in
            if rank = ''K'' then Inr 0
            else if rank = ''Q'' then Inr 12
            else if rank = ''J'' then Inr 11
            else if rank = ''A'' then Inr 1
            else py_int rank))"

text \<open>
  \<^verbatim>\<open>sum(get_card_value(c["card"]) for c in player["hand"])\<close>: the values are
  computed from left to right and the first exception ends the sum.
\<close>

fun hand_score :: "card_slot list \<Rightarrow> py_error + int" where
  "hand_score [] = Inr 0"
| "hand_score (c # cs) =
     (case get_card_value (card_str c) of
        Inl e \<Rightarrow> Inl e
      | Inr v \<Rightarrow> (case hand_score cs of Inl e \<Rightarrow> Inl e | Inr t \<Rightarrow> Inr (v + t)))"

section \<open>Session creation\<close>

text \<open>
  The dealing loop of \<^verbatim>\<open>create_game\<close>: \<open>idx\<close> is the position of the next undealt
  card and \<open>i\<close> the position of the player. Reading \<^verbatim>\<open>deck[idx]\<close> to
  \<^verbatim>\<open>deck[idx+3]\<close> raises \<^verbatim>\<open>IndexError\<close> as soon as one of them is past the end.
\<close>

fun deal :: "string list \<Rightarrow> nat \<Rightarrow> nat \<Rightarrow> string list \<Rightarrow> py_error + player list" where
  "deal deck idx i [] = Inr []"
| "deal deck idx i (nm # nms) =
     (if idx + 3 < length deck then
        (case deal deck (idx + 4) (i + 1) nms of
           Inl e \<Rightarrow> Inl e
         | Inr ps \<Rightarrow>
             Inr (\<lparr>player_id = ''p'' @ str_nat (i + 1), name = nm, seat = int i,
                   hand = [\<lparr>card_str = deck ! idx, visible = True\<rparr>,
                           \<lparr>card_str = deck ! (idx + 1), visible = False\<rparr>,
                           \<lparr>card_str = deck ! (idx + 2), visible = True\<rparr>,
                           \<lparr>card_str = deck ! (idx + 3), visible = False\<rparr>],
                   score = 0\<rparr> # ps))
      else Inl IndexError)"

text \<open>
  \<^verbatim>\<open>create_game\<close>. The argument is \<open>None\<close> when the caller passes no list; the new
  id (\<^verbatim>\<open>uuid4\<close>) and the shuffle are parameters. \<open>effective_names\<close> is the first
  statement, which replaces a missing or empty list by the two default names. An
  exception leaves the store as it was, since the session is stored last.
\<close>

definition effective_names :: "string list option \<Rightarrow> string list" where
  "effective_names player_names =
     (case player_names of
        None \<Rightarrow> [''Player1'', ''Player2'']
      | Some ns \<Rightarrow> if ns = [] then [''Player1'', ''Player2''] else ns)"

definition create_game ::
  "game_store \<Rightarrow> string \<Rightarrow> (string list \<Rightarrow> string list) \<Rightarrow> string list option
     \<Rightarrow> game_store \<times> (py_error + string)" where
  "create_game store gid shuffle player_names =
     (let names = effective_names player_names;
          deck = create_deck shuffle
      in case deal deck 0 0 names of
           Inl e \<Rightarrow> (store, Inl e)
         | Inr ps \<Rightarrow>
             (let idx = 4 * length names;
                  s = \<lparr>game_id = gid, variant = ''cambio_standard'', players = ps,
                       draw_pile = drop idx deck,
                       draw_pile_count = int (length (drop idx deck)),
                       top_discard = None, current_player = ''p1'',
                       turn_phase = ''awaiting_action'', history = [],
                       metadata = \<lparr>started_at = ''2025-10-25T08:00:00Z'', round = 1\<rparr>\<rparr>
              in (store(gid \<mapsto> s), Inr gid)))"

section \<open>Direct patching\<close>

text \<open>
  \<^verbatim>\<open>patch_state\<close> runs \<^verbatim>\<open>state.update(patch)\<close>. A patch names any of the keys of
  the session with a new value for each; a key the patch does not name is \<open>None\<close> here.
  The values have the types of the fields they replace; a patch with further keys, or
  with a value of another type, is outside this model.
\<close>

record patch_rec =
  p_game_id :: "string option"
  p_variant :: "string option"
  p_players :: "player list option"
  p_draw_pile :: "string list option"
  p_draw_pile_count :: "int option"
  p_top_discard :: "string option option"
  p_current_player :: "string option"
  p_turn_phase :: "string option"
  p_history :: "history_entry list option"
  p_metadata :: "metadata_rec option"

definition or_else :: "'a option \<Rightarrow> 'a \<Rightarrow> 'a" where
  "or_else v d = (case v of None \<Rightarrow> d | Some x \<Rightarrow> x)"

definition dict_update :: "state \<Rightarrow> patch_rec \<Rightarrow> state" where
  "dict_update s p =
     \<lparr>game_id = or_else (p_game_id p) (game_id s),
      variant = or_else (p_variant p) (variant s),
      players = or_else (p_players p) (players s),
      draw_pile = or_else (p_draw_pile p) (draw_pile s),
      draw_pile_count = or_else (p_draw_pile_count p) (draw_pile_count s),
      top_discard = or_else (p_top_discard p) (top_discard s),
      current_player = or_else (p_current_player p) (current_player s),
      turn_phase = or_else (p_turn_phase p) (turn_phase s),
      history = or_else (p_history p) (history s),
      metadata = or_else (p_metadata p) (metadata s)\<rparr>"

definition patch_state ::
  "game_store \<Rightarrow> string \<Rightarrow> patch_rec \<Rightarrow> game_store \<times> (py_error + state)" where
  "patch_state store gid patch =
     (case store gid of
        None \<Rightarrow> (store, Inl (ValueError (''Game '' @ gid @ '' not found'')))
      | Some s \<Rightarrow> (store(gid \<mapsto> dict_update s patch), Inr (dict_update s patch)))"

section \<open>Move validation\<close>

text \<open>
  \<^verbatim>\<open>slot < 0\<close> and \<^verbatim>\<open>slot > 3\<close>. An int, a bool (\<^verbatim>\<open>False\<close> is 0 and \<^verbatim>\<open>True\<close>
  is 1) and a float are compared by value, where nothing is below or above NaN; for a
  string, a list or a dict the comparison raises \<^verbatim>\<open>TypeError\<close>.
\<close>

definition less_than_int :: "py_value \<Rightarrow> int \<Rightarrow> py_error + bool" where
  "less_than_int v n =
     (case v of
        PyInt k \<Rightarrow> Inr (k < n)
      | PyBool b \<Rightarrow> Inr ((if b then 1 else 0) < n)
      | PyFloat f \<Rightarrow>
          Inr (case f of Finite r \<Rightarrow> r < of_int n | Infinite up \<Rightarrow> \<not> up | NaN \<Rightarrow> False)
      | _ \<Rightarrow> Inl TypeError)"

definition greater_than_int :: "py_value \<Rightarrow> int \<Rightarrow> py_error + bool" where
  "greater_than_int v n =
     (case v of
        PyInt k \<Rightarrow> Inr (k > n)
      | PyBool b \<Rightarrow> Inr ((if b then 1 else 0) > n)
      | PyFloat f \<Rightarrow>
          Inr (case f of Finite r \<Rightarrow> r > of_int n | Infinite up \<Rightarrow> up | NaN \<Rightarrow> False)
      | _ \<Rightarrow> Inl TypeError)"

text \<open>\<^verbatim>\<open>slot is None or slot < 0 or slot > 3\<close>, from left to right.\<close>

definition invalid_slot :: "py_value option \<Rightarrow> py_error + bool" where
  "invalid_slot sl =
     (case sl of
        None \<Rightarrow> Inr True
      | Some v \<Rightarrow>
          (case less_than_int v 0 of
             Inl e \<Rightarrow> Inl e
           | Inr below \<Rightarrow> if below then Inr True else greater_than_int v 3))"

text \<open>
  \<^verbatim>\<open>validate_move\<close> returns its pair, or raises what the test of the slot raises. The
  slot is read only after the checks that come before it in the source.
\<close>

definition check_slot :: "py_value option \<Rightarrow> py_error + bool \<times> string option" where
  "check_slot sl =
     (case invalid_slot sl of
        Inl e \<Rightarrow> Inl e
      | Inr bad \<Rightarrow> if bad then Inr (False, Some ''Invalid slot'') else Inr (True, None))"

definition validate_move ::
  "game_store \<Rightarrow> string \<Rightarrow> move \<Rightarrow> py_error + bool \<times> string option" where
  "validate_move store gid mv =
     (case store gid of
        None \<Rightarrow> Inr (False, Some ''Game not found'')
      | Some s \<Rightarrow>
          if turn_phase s = ''round_end'' then Inr (False, Some ''Round has ended'')
          else if move_type mv = Some ''draw_deck'' then
            (if draw_pile_count s = 0 then Inr (False, Some ''Draw pile is empty'')
             else Inr (True, None))
          else if move_type mv = Some ''draw_discard_swap'' then
            (if top_discard s = None \<or> top_discard s = Some [] then
               Inr (False, Some ''No card in discard pile'')
             else check_slot (slot mv))
          else if move_type mv = Some ''peek'' then check_slot (slot mv)
          else if move_type mv = Some ''call_cambio'' then Inr (True, None)
          else Inr (False, Some (''Unknown move type: '' @ or_else (move_type mv) ''None'')))"

section \<open>Move execution\<close>

text \<open>Every branch ends with \<^verbatim>\<open>state["history"].append({...})\<close>.\<close>

definition append_history :: "state \<Rightarrow> string \<Rightarrow> state" where
  "append_history s act =
     s\<lparr>history := history s @
          [\<lparr>turn = int (length (history s)) + 1, player = current_player s, action = act\<rparr>]\<rparr>"

text \<open>
  The loop of the \<^verbatim>\<open>call_cambio\<close> branch. It mutates the players one after the
  other, so when \<^verbatim>\<open>get_card_value\<close> raises for one of them, the players before keep
  their new hands and scores and that player keeps the revealed hand. The result is the
  player list as the loop leaves it and the exception, if any.
\<close>

fun reveal_and_score :: "player list \<Rightarrow> player list \<times> py_error option" where
  "reveal_and_score [] = ([], None)"
| "reveal_and_score (p # ps) =
     (let h = map (\<lambda>c. c\<lparr>visible := True\<rparr>) (hand p) in
      case hand_score h of
        Inl e \<Rightarrow> (p\<lparr>hand := h\<rparr> # ps, Some e)
      | Inr v \<Rightarrow>
          (case reveal_and_score ps of
             (ps', r) \<Rightarrow> (p\<lparr>hand := h, score := v\<rparr> # ps', r)))"

text \<open>
  The last three statements of \<^verbatim>\<open>apply_move\<close>: \<open>s\<close> is the session as the branch
  left it and \<open>ci\<close> the position of the object \<^verbatim>\<open>current_player\<close> in its player
  list. \<^verbatim>\<open>list.index\<close> compares by value.
\<close>

definition switch_player ::
  "game_store \<Rightarrow> string \<Rightarrow> state \<Rightarrow> nat \<Rightarrow> game_store \<times> (py_error + move_result)" where
  "switch_player store gid s ci =
     (case py_list_index (players s ! ci) (players s) of
        None \<Rightarrow> (store(gid \<mapsto> s), Inl (ValueError ''value is not in list''))
      | Some current_idx \<Rightarrow>
          (let next_idx = (current_idx + 1) mod length (players s);
               s' = s\<lparr>current_player := player_id (players s ! next_idx)\<rparr>
           in (store(gid \<mapsto> s'), Inr (Accepted s' None))))"

text \<open>
  A slot as a list index and inside an f-string. An int indexes a list and so does a bool
  (\<^verbatim>\<open>False\<close> is 0, \<^verbatim>\<open>True\<close> is 1); \<open>index_and_text\<close> gives the index together
  with the text \<^verbatim>\<open>f"{slot}"\<close> makes of the value. Any other value raises
  \<^verbatim>\<open>TypeError\<close> as an index, a float too.
\<close>

definition index_and_text :: "py_value \<Rightarrow> (int \<times> string) option" where
  "index_and_text v =
     (case v of
        PyInt k \<Rightarrow> Some (k, str_int k)
      | PyBool b \<Rightarrow> Some (if b then (1, ''True'') else (0, ''False''))
      | _ \<Rightarrow> None)"

text \<open>The slot of a move as index and text, when it has a slot that is an index.\<close>

definition slot_index :: "move \<Rightarrow> (int \<times> string) option" where
  "slot_index mv = (case slot mv of None \<Rightarrow> None | Some v \<Rightarrow> index_and_text v)"

text \<open>
  \<^verbatim>\<open>apply_move\<close>. An exception of \<^verbatim>\<open>validate_move\<close> passes through it. \<open>ci\<close> is
  the position of the first player whose id is \<^verbatim>\<open>state["current_player"]\<close> (the
  generator given to \<^verbatim>\<open>next\<close>). In the swap branch validation has made sure that the
  discard top is a non-empty string. Validation also makes sure that the session
  exists, that the kind is one of the four and that a swap or a peek has a slot, so the
  \<^verbatim>\<open>KeyError\<close> branches and the last \<open>else\<close> are never taken. In the swap and the
  peek branch the slot is first used as an index of the hand, before anything is
  changed.
\<close>

definition apply_move ::
  "game_store \<Rightarrow> string \<Rightarrow> move \<Rightarrow> game_store \<times> (py_error + move_result)" where
  "apply_move store gid mv =
     (case validate_move store gid mv of
        Inl e \<Rightarrow> (store, Inl e)
      | Inr (valid, reason) \<Rightarrow>
     if \<not> valid then (store, Inr (Rejected reason)) else
     (case store gid of
        None \<Rightarrow> (store, Inl (KeyError gid))
      | Some s \<Rightarrow>
     (case index_where (\<lambda>p. player_id p = current_player s) (players s) of
        None \<Rightarrow> (store, Inl StopIteration)
      | Some ci \<Rightarrow>
          if move_type mv = Some ''draw_deck'' then
            (case draw_pile s of
               [] \<Rightarrow> (store, Inl IndexError)
             | drawn # rest \<Rightarrow>
                 switch_player store gid
                   (append_history
                      (s\<lparr>draw_pile := rest, draw_pile_count := int (length rest),
                         top_discard := Some drawn\<rparr>)
                      ''drew from deck'') ci)
          else if move_type mv = Some ''draw_discard_swap'' then
            (case slot mv of
               None \<Rightarrow> (store, Inl (KeyError ''slot''))
             | Some v \<Rightarrow>
                 (case index_and_text v of
                    None \<Rightarrow> (store, Inl TypeError)
                  | Some (k, shown) \<Rightarrow>
                 (let cur = players s ! ci in
                  case py_position (hand cur) k of
                    None \<Rightarrow> (store, Inl IndexError)
                  | Some j \<Rightarrow>
                      (let old_card = card_str (hand cur ! j);
                           cur' = cur\<lparr>hand := (hand cur)
                                    [j := \<lparr>card_str = the (top_discard s), visible = True\<rparr>]\<rparr>
                       in switch_player store gid
                            (append_history
                               (s\<lparr>players := (players s)[ci := cur'],
                                  top_discard := Some old_card\<rparr>)
                               (''drew from discard and swapped slot '' @ shown)) ci))))
          else if move_type mv = Some ''peek'' then
            (case slot mv of
               None \<Rightarrow> (store, Inl (KeyError ''slot''))
             | Some v \<Rightarrow>
                 (case index_and_text v of
                    None \<Rightarrow> (store, Inl TypeError)
                  | Some (k, shown) \<Rightarrow>
                 (let cur = players s ! ci in
                  case py_position (hand cur) k of
                    None \<Rightarrow> (store, Inl IndexError)
                  | Some j \<Rightarrow>
                      (let cur' = cur\<lparr>hand := (hand cur)
                                    [j := (hand cur ! j)\<lparr>visible := True\<rparr>]\<rparr>
                       in switch_player store gid
                            (append_history (s\<lparr>players := (players s)[ci := cur']\<rparr>)
                               (''peeked at slot '' @ shown)) ci))))
          else if move_type mv = Some ''call_cambio'' then
            (case reveal_and_score (players s) of
               (ps, Some e) \<Rightarrow> (store(gid \<mapsto> s\<lparr>players := ps\<rparr>), Inl e)
             | (ps, None) \<Rightarrow>
                 (let s' = append_history (s\<lparr>players := ps, turn_phase := ''round_end''\<rparr>)
                             ''called Cambio!''
                  in (store(gid \<mapsto> s'), Inr (Accepted s' (Some True)))))
          else switch_player store gid s ci)))"

text \<open>
  A sequence of calls of \<^verbatim>\<open>apply_move\<close> on one game, each on the store the call
  before left behind, whatever that call returned or raised; the results are collected.
\<close>

fun apply_moves ::
  "game_store \<Rightarrow> string \<Rightarrow> move list \<Rightarrow> game_store \<times> (py_error + move_result) list" where
  "apply_moves store gid [] = (store, [])"
| "apply_moves store gid (mv # mvs) =
     (case apply_move store gid mv of
        (store', r) \<Rightarrow>
          (case apply_moves store' gid mvs of (store'', rs) \<Rightarrow> (store'', r # rs)))"

section \<open>The HTTP layer of \<^verbatim>\<open>main.py\<close>\<close>

text \<open>
  An endpoint returns a body (status 200), raises \<^verbatim>\<open>HTTPException\<close> with a status
  code and a detail, or lets an exception of the store escape.
\<close>

datatype 'a http_response =
    Body 'a
  | HTTPException nat "string option"
  | Unhandled py_error

text \<open>
  \<^verbatim>\<open>except ValueError as e\<close> with \<^verbatim>\<open>str(e)\<close>: \<open>ValueError\<close>, \<open>IntValueError\<close>
  and \<open>IntLimitError\<close> are Python's \<^verbatim>\<open>ValueError\<close>. The text of the second quotes
  the literal the plain way, which is what \<^verbatim>\<open>repr\<close> does for a literal without
  quotes, backslashes and control characters.
\<close>

definition value_error_text :: "py_error \<Rightarrow> string option" where
  "value_error_text e =
     (case e of
        ValueError msg \<Rightarrow> Some msg
      | IntValueError lit \<Rightarrow>
          Some (''invalid literal for int() with base 10: '' @ [CHR 0x27] @ lit @ [CHR 0x27])
      | IntLimitError n \<Rightarrow>
          Some (''Exceeds the limit (4300 digits) for integer string conversion: value has ''
                @ str_nat n @ '' digits; use sys.set_int_max_str_digits() to increase the limit'')
      | _ \<Rightarrow> None)"

definition patch_game_endpoint ::
  "game_store \<Rightarrow> string \<Rightarrow> patch_rec \<Rightarrow> game_store \<times> state http_response" where
  "patch_game_endpoint store gid patch =
     (case patch_state store gid patch of
        (store', Inr s) \<Rightarrow> (store', Body s)
      | (store', Inl e) \<Rightarrow>
          (case value_error_text e of
             Some msg \<Rightarrow> (store', HTTPException 404 (Some msg))
           | None \<Rightarrow> (store', Unhandled e)))"

definition submit_move_endpoint ::
  "game_store \<Rightarrow> string \<Rightarrow> move \<Rightarrow> game_store \<times> move_result http_response" where
  "submit_move_endpoint store gid mv =
     (case apply_move store gid mv of
        (store', Inl e) \<Rightarrow> (store', Unhandled e)
      | (store', Inr (Rejected reason)) \<Rightarrow> (store', HTTPException 400 reason)
      | (store', Inr (Accepted s re)) \<Rightarrow> (store', Body (Accepted s re)))"

definition get_state :: "game_store \<Rightarrow> string \<Rightarrow> state option" where
  "get_state store gid = store gid"

definition get_game_endpoint :: "game_store \<Rightarrow> string \<Rightarrow> state http_response" where
  "get_game_endpoint store gid =
     (case get_state store gid of
        None \<Rightarrow> HTTPException 404 (Some ''Game not found'')
      | Some s \<Rightarrow> Body s)"

section \<open>Cards in play\<close>

text \<open>
  The cards a session holds: those of the draw pile, those in the hand slots of all
  players, and the discard top if there is one, counted with multiplicity.
\<close>

definition discard_cards :: "state \<Rightarrow> string multiset" where
  "discard_cards s = (case top_discard s of None \<Rightarrow> {#} | Some c \<Rightarrow> {#c#})"

definition hand_cards :: "player list \<Rightarrow> string multiset" where
  "hand_cards ps = sum_list (map (\<lambda>p. mset (map card_str (hand p))) ps)"

definition cards_in_play :: "state \<Rightarrow> string multiset" where
  "cards_in_play s = mset (draw_pile s) + hand_cards (players s) + discard_cards s"

text \<open>Marking a slot visible, as \<^verbatim>\<open>card_slot["visible"] = True\<close> does.\<close>

definition reveal :: "card_slot \<Rightarrow> card_slot" where
  "reveal c = c\<lparr>visible := True\<rparr>"

section \<open>Turns\<close>

text \<open>
  The ids \<^verbatim>\<open>create_game\<close> gives to \<open>n\<close> players, the first of which is at
  position \<open>i\<close> of the list of names: \<open>p1\<close>, \<open>p2\<close>, and so on.
\<close>

definition player_ids :: "nat \<Rightarrow> nat \<Rightarrow> string list" where
  "player_ids i n = map (\<lambda>j. ''p'' @ str_nat (j + 1)) [i..<i + n]"

text \<open>
  A result of \<^verbatim>\<open>apply_move\<close> that stands for an accepted move other than
  \<open>call_cambio\<close>: valid, and without the key \<^verbatim>\<open>round_end\<close>. \<open>turns_taken\<close> counts
  them in the results of a sequence of calls.
\<close>

fun passes_turn :: "py_error + move_result \<Rightarrow> bool" where
  "passes_turn (Inr (Accepted t None)) = True"
| "passes_turn r = False"

definition turns_taken :: "(py_error + move_result) list \<Rightarrow> nat" where
  "turns_taken rs = length (filter passes_turn rs)"

section \<open>Card values as the specification words them\<close>

text \<open>
  The specification gives the value of a card by its rank: K is 0, A is 1, a numeric
  rank 2 to 10 is its face value, J is 11, Q is 12. The rank of a card is what stands
  before its one-character suit. \<open>spec_card_value\<close> is this table, to be compared with
  \<open>get_card_value\<close>; it has no value for a string that is not a card.
\<close>

definition spec_rank_values :: "(string \<times> int) list" where
  "spec_rank_values =
     [(''K'', 0), (''A'', 1), (''2'', 2), (''3'', 3), (''4'', 4), (''5'', 5)] @
     [(''6'', 6), (''7'', 7), (''8'', 8), (''9'', 9), (''10'', 10), (''J'', 11), (''Q'', 12)]"

definition spec_card_value :: "string \<Rightarrow> int option" where
  "spec_card_value c = (if c = [] then None else map_of spec_rank_values (butlast c))"

section \<open>A concrete session\<close>

text \<open>
  The two-player session that \<^verbatim>\<open>create_game(["Alice", "Bob"])\<close> stores when the
  shuffle reverses the deck and the new id is \<open>g1\<close>; the properties below are
  instantiated on it.
\<close>

definition example_session :: state where
  "example_session =
     \<lparr>game_id = ''g1'', variant = ''cambio_standard'',
      players =
        [\<lparr>player_id = ''p1'', name = ''Alice'', seat = 0,
          hand = [\<lparr>card_str = ''KS'', visible = True\<rparr>,
                  \<lparr>card_str = ''QS'', visible = False\<rparr>,
                  \<lparr>card_str = ''JS'', visible = True\<rparr>,
                  \<lparr>card_str = ''10S'', visible = False\<rparr>],
          score = 0\<rparr>,
         \<lparr>player_id = ''p2'', name = ''Bob'', seat = 1,
          hand = [\<lparr>card_str = ''9S'', visible = True\<rparr>,
                  \<lparr>card_str = ''8S'', visible = False\<rparr>,
                  \<lparr>card_str = ''7S'', visible = True\<rparr>,
                  \<lparr>card_str = ''6S'', visible = False\<rparr>],
          score = 0\<rparr>],
      draw_pile =
        [''5S'', ''4S'', ''3S'', ''2S'', ''AS'', ''KC'', ''QC'', ''JC'',
         ''10C'', ''9C'', ''8C'', ''7C'', ''6C'', ''5C'', ''4C'', ''3C'',
         ''2C'', ''AC'', ''KD'', ''QD'', ''JD'', ''10D'', ''9D'', ''8D'',
         ''7D'', ''6D'', ''5D'', ''4D'', ''3D'', ''2D'', ''AD'', ''KH'',
         ''QH'', ''JH'', ''10H'', ''9H'', ''8H'', ''7H'', ''6H'', ''5H'',
         ''4H'', ''3H'', ''2H'', ''AH''],
      draw_pile_count = 44, top_discard = None, current_player = ''p1'',
      turn_phase = ''awaiting_action'', history = [],
      metadata = \<lparr>started_at = ''2025-10-25T08:00:00Z'', round = 1\<rparr>\<rparr>"

definition example_store :: game_store where
  "example_store = [''g1'' \<mapsto> example_session]"

definition draw_deck_move :: move where
  "draw_deck_move = \<lparr>move_type = Some ''draw_deck'', slot = None\<rparr>"

definition swap_move :: "int \<Rightarrow> move" where
  "swap_move k = \<lparr>move_type = Some ''draw_discard_swap'', slot = Some (PyInt k)\<rparr>"

definition peek_move :: "int \<Rightarrow> move" where
  "peek_move k = \<lparr>move_type = Some ''peek'', slot = Some (PyInt k)\<rparr>"

definition call_cambio_move :: move where
  "call_cambio_move = \<lparr>move_type = Some ''call_cambio'', slot = None\<rparr>"

text \<open>The example session after \<open>p1\<close> has called Cambio as the first move.\<close>

definition ended_session :: state where
  "ended_session =
     example_session
       \<lparr>players :=
          [\<lparr>player_id = ''p1'', name = ''Alice'', seat = 0,
            hand = [\<lparr>card_str = ''KS'', visible = True\<rparr>,
                    \<lparr>card_str = ''QS'', visible = True\<rparr>,
                    \<lparr>card_str = ''JS'', visible = True\<rparr>,
                    \<lparr>card_str = ''10S'', visible = True\<rparr>],
            score = 33\<rparr>,
           \<lparr>player_id = ''p2'', name = ''Bob'', seat = 1,
            hand = [\<lparr>card_str = ''9S'', visible = True\<rparr>,
                    \<lparr>card_str = ''8S'', visible = True\<rparr>,
                    \<lparr>card_str = ''7S'', visible = True\<rparr>,
                    \<lparr>card_str = ''6S'', visible = True\<rparr>],
            score = 30\<rparr>],
        turn_phase := ''round_end'',
        history := [\<lparr>turn = 1, player = ''p1'', action = ''called Cambio!''\<rparr>]\<rparr>"

definition ended_store :: game_store where
  "ended_store = [''g1'' \<mapsto> ended_session]"

text \<open>
  The example session after \<open>p1\<close> has drawn from the deck as the first move, and after
  \<open>p2\<close> has then swapped slot 0 with the discard top.
\<close>

definition drawn_session :: state where
  "drawn_session =
     example_session
       \<lparr>draw_pile := tl (draw_pile example_session), draw_pile_count := 43,
        top_discard := Some ''5S'', current_player := ''p2'',
        history := [\<lparr>turn = 1, player = ''p1'', action = ''drew from deck''\<rparr>]\<rparr>"

definition drawn_store :: game_store where
  "drawn_store = [''g1'' \<mapsto> drawn_session]"

definition swapped_session :: state where
  "swapped_session =
     drawn_session
       \<lparr>players :=
          [players example_session ! 0,
           \<lparr>player_id = ''p2'', name = ''Bob'', seat = 1,
            hand = [\<lparr>card_str = ''5S'', visible = True\<rparr>,
                    \<lparr>card_str = ''8S'', visible = False\<rparr>,
                    \<lparr>card_str = ''7S'', visible = True\<rparr>,
                    \<lparr>card_str = ''6S'', visible = False\<rparr>],
            score = 0\<rparr>],
        top_discard := Some ''9S'', current_player := ''p1'',
        history := [\<lparr>turn = 1, player = ''p1'', action = ''drew from deck''\<rparr>,
                    \<lparr>turn = 2, player = ''p2'',
                     action = ''drew from discard and swapped slot 0''\<rparr>]\<rparr>"

definition swapped_store :: game_store where
  "swapped_store = [''g1'' \<mapsto> swapped_session]"

text \<open>
  A patch that names two keys: it sets the turn phase back to \<open>awaiting_action\<close> and
  the count of the draw pile to 0.
\<close>

definition reopen_patch :: patch_rec where
  "reopen_patch =
     \<lparr>p_game_id = None, p_variant = None, p_players = None, p_draw_pile = None,
      p_draw_pile_count = Some 0, p_top_discard = None, p_current_player = None,
      p_turn_phase = Some ''awaiting_action'', p_history = None, p_metadata = None\<rparr>"

section \<open>Properties\<close>

subsection \<open>Positions in lists\<close>

lemma index_where_SomeD:
  "index_where P xs = Some i \<Longrightarrow> i < length xs \<and> P (xs ! i) \<and> (\<forall>j<i. \<not> P (xs ! j))"
proof (induction xs arbitrary: i)
  case Nil
  then show ?case by simp
next
  case (Cons x xs)
  show ?case
  proof (cases "P x")
    case True
    with Cons.prems show ?thesis by simp
  next
    case False
    with Cons.prems obtain k where k: "index_where P xs = Some k" "i = Suc k"
      by (auto split: option.splits)
    from Cons.IH [OF k(1)] False k(2) show ?thesis
      by (auto simp: nth_Cons' less_Suc_eq_0_disj)
  qed
qed

lemma index_where_first:
  "i < length xs \<Longrightarrow> P (xs ! i) \<Longrightarrow> \<forall>j<i. \<not> P (xs ! j) \<Longrightarrow> index_where P xs = Some i"
proof (induction xs arbitrary: i)
  case Nil
  then show ?case by simp
next
  case (Cons x xs)
  show ?case
  proof (cases i)
    case 0
    with Cons.prems show ?thesis by simp
  next
    case (Suc k)
    with Cons.prems have "\<not> P x" by auto
    moreover have "index_where P xs = Some k"
      using Cons.prems Suc by (intro Cons.IH) auto
    ultimately show ?thesis using Suc by simp
  qed
qed

lemma index_where_None: "index_where P xs = None \<longleftrightarrow> (\<forall>x\<in>set xs. \<not> P x)"
  by (induction xs) (auto split: option.splits)

lemma py_list_index_updated:
  assumes "index_where (\<lambda>p. f p = v) xs = Some i" and "f y = v"
  shows "py_list_index (xs[i := y] ! i) (xs[i := y]) = Some i"
proof -
  from index_where_SomeD [OF assms(1)]
  have i: "i < length xs" and first: "\<forall>j<i. f (xs ! j) \<noteq> v" by auto
  show ?thesis
    unfolding py_list_index_def
  proof (rule index_where_first)
    show "i < length (xs[i := y])" using i by simp
    show "xs[i := y] ! i = xs[i := y] ! i" ..
    show "\<forall>j<i. \<not> xs[i := y] ! j = xs[i := y] ! i"
      using i first assms(2) by auto
  qed
qed

lemma py_list_index_same:
  assumes "index_where (\<lambda>p. f p = v) xs = Some i"
  shows "py_list_index (xs ! i) xs = Some i"
  using py_list_index_updated [OF assms, of "xs ! i"] index_where_SomeD [OF assms]
  by simp

lemma switch_player_updated:
  assumes "index_where (\<lambda>p. player_id p = c) ps = Some ci"
    and "players s = ps[ci := y]" and "player_id y = c"
  shows "switch_player store gid s ci =
           (store(gid \<mapsto> s\<lparr>current_player := player_id (players s ! (Suc ci mod length ps))\<rparr>),
            Inr (Accepted (s\<lparr>current_player := player_id (players s ! (Suc ci mod length ps))\<rparr>) None))"
  using py_list_index_updated [OF assms(1), of y] assms(2,3)
  by (simp add: switch_player_def Let_def)

lemma switch_player_same:
  assumes "index_where (\<lambda>p. player_id p = c) (players s) = Some ci"
  shows "switch_player store gid s ci =
           (store(gid \<mapsto> s\<lparr>current_player := player_id (players s ! (Suc ci mod length (players s)))\<rparr>),
            Inr (Accepted (s\<lparr>current_player := player_id (players s ! (Suc ci mod length (players s)))\<rparr>) None))"
  using py_list_index_same [OF assms]
  by (simp add: switch_player_def Let_def)

lemma py_position_valid:
  "0 \<le> k \<Longrightarrow> py_position xs k = (if nat k < length xs then Some (nat k) else None)"
  by (simp add: py_position_def)

subsection \<open>Validation\<close>

lemma check_slot_cases:
  obtains (raises) "check_slot sl = Inl TypeError"
  | (invalid) "check_slot sl = Inr (False, Some ''Invalid slot'')"
  | (valid) v where "sl = Some v" "check_slot sl = Inr (True, None)"
      "invalid_slot (Some v) = Inr False"
proof (cases sl)
  case None
  then show thesis by (simp add: invalid check_slot_def invalid_slot_def)
next
  case (Some v)
  show thesis
  proof (cases "invalid_slot (Some v)")
    case (Inl e)
    then have "e = TypeError"
      by (auto simp: invalid_slot_def less_than_int_def greater_than_int_def
            split: py_value.splits sum.splits if_splits)
    with Inl Some show thesis by (simp add: raises check_slot_def)
  next
    case (Inr bad)
    with Some show thesis by (cases bad) (simp_all add: invalid valid check_slot_def)
  qed
qed

lemma valid_slot_index:
  assumes "invalid_slot (Some v) = Inr False"
  shows "index_and_text v = None \<or> (\<exists>k shown. index_and_text v = Some (int k, shown) \<and> k \<le> 3)"
proof (cases v)
  case (PyInt i)
  with assms have "0 \<le> i" "i \<le> 3"
    by (auto simp: invalid_slot_def less_than_int_def greater_than_int_def split: if_splits)
  then have "index_and_text v = Some (int (nat i), str_int i)" "nat i \<le> 3"
    by (simp_all add: PyInt index_and_text_def)
  then show ?thesis by blast
next
  case (PyBool b)
  have "index_and_text v = Some (int (if b then 1 else 0), if b then ''True'' else ''False'')"
    by (simp add: PyBool index_and_text_def)
  moreover have "(if b then 1 else 0 :: nat) \<le> 3" by simp
  ultimately show ?thesis by blast
qed (simp_all add: index_and_text_def)

lemma validate_move_True:
  "validate_move store gid mv = Inr (True, r) \<Longrightarrow>
     r = None \<and> (\<exists>s. store gid = Some s \<and> turn_phase s \<noteq> ''round_end'' \<and>
       (move_type mv = Some ''draw_deck'' \<and> draw_pile_count s \<noteq> 0 \<or>
        move_type mv = Some ''draw_discard_swap'' \<and>
          (\<exists>d v. top_discard s = Some d \<and> d \<noteq> [] \<and> slot mv = Some v \<and>
                 invalid_slot (Some v) = Inr False) \<or>
        move_type mv = Some ''peek'' \<and>
          (\<exists>v. slot mv = Some v \<and> invalid_slot (Some v) = Inr False) \<or>
        move_type mv = Some ''call_cambio''))"
  by (cases "slot mv" rule: check_slot_cases)
    (auto simp: validate_move_def split: option.splits if_splits)

lemma validate_move_reason:
  "validate_move store gid mv = Inr (False, r) \<Longrightarrow> \<exists>msg. r = Some msg"
  by (cases "slot mv" rule: check_slot_cases)
    (auto simp: validate_move_def split: option.splits if_splits)

lemma validate_move_raises:
  "validate_move store gid mv = Inl e \<Longrightarrow> e = TypeError"
  by (cases "slot mv" rule: check_slot_cases)
    (auto simp: validate_move_def split: option.splits if_splits)

lemma apply_move_rejected:
  "validate_move store gid mv = Inr (False, r) \<Longrightarrow>
     apply_move store gid mv = (store, Inr (Rejected r))"
  by (simp add: apply_move_def)

lemma apply_move_validation_raises:
  "validate_move store gid mv = Inl e \<Longrightarrow> apply_move store gid mv = (store, Inl e)"
  by (simp add: apply_move_def)

lemma validate_round_end:
  "store gid = Some s \<Longrightarrow> turn_phase s = ''round_end'' \<Longrightarrow>
     validate_move store gid mv = Inr (False, Some ''Round has ended'')"
  by (simp add: validate_move_def)

subsection \<open>The outcomes of \<^verbatim>\<open>apply_move\<close>\<close>

text \<open>
  On a stored session \<^verbatim>\<open>apply_move\<close> ends in one of seven ways: the move is
  rejected, an exception leaves the store untouched, one of the four kinds of move is
  carried out, or the scoring loop of \<^verbatim>\<open>call_cambio\<close> raises half-way.
\<close>

lemma apply_move_cases [consumes 1, case_names rejected raised draw_deck swap peek call_cambio cambio_raised]:
  assumes "store gid = Some s"
  obtains
    (rejected) r where
      "validate_move store gid mv = Inr (False, Some r)"
      "apply_move store gid mv = (store, Inr (Rejected (Some r)))"
  | (raised) e where
      "apply_move store gid mv = (store, Inl e)"
  | (draw_deck) ci d rest s' where
      "turn_phase s \<noteq> ''round_end''"
      "move_type mv = Some ''draw_deck''"
      "index_where (\<lambda>p. player_id p = current_player s) (players s) = Some ci"
      "draw_pile s = d # rest"
      "s' = (append_history
               (s\<lparr>draw_pile := rest, draw_pile_count := int (length rest),
                  top_discard := Some d\<rparr>) ''drew from deck'')
             \<lparr>current_player := player_id (players s ! (Suc ci mod length (players s)))\<rparr>"
      "apply_move store gid mv = (store(gid \<mapsto> s'), Inr (Accepted s' None))"
  | (swap) ci k shown d s' where
      "turn_phase s \<noteq> ''round_end''"
      "move_type mv = Some ''draw_discard_swap''"
      "index_where (\<lambda>p. player_id p = current_player s) (players s) = Some ci"
      "slot_index mv = Some (int k, shown)" "k \<le> 3" "k < length (hand (players s ! ci))"
      "top_discard s = Some d" "d \<noteq> []"
      "s' = (append_history
               (s\<lparr>players := (players s)
                     [ci := (players s ! ci)\<lparr>hand := (hand (players s ! ci))
                              [k := \<lparr>card_str = d, visible = True\<rparr>]\<rparr>],
                  top_discard := Some (card_str (hand (players s ! ci) ! k))\<rparr>)
               (''drew from discard and swapped slot '' @ shown))
             \<lparr>current_player := player_id (players s ! (Suc ci mod length (players s)))\<rparr>"
      "apply_move store gid mv = (store(gid \<mapsto> s'), Inr (Accepted s' None))"
  | (peek) ci k shown s' where
      "turn_phase s \<noteq> ''round_end''"
      "move_type mv = Some ''peek''"
      "index_where (\<lambda>p. player_id p = current_player s) (players s) = Some ci"
      "slot_index mv = Some (int k, shown)" "k \<le> 3" "k < length (hand (players s ! ci))"
      "s' = (append_history
               (s\<lparr>players := (players s)
                     [ci := (players s ! ci)\<lparr>hand := (hand (players s ! ci))
                              [k := (hand (players s ! ci) ! k)\<lparr>visible := True\<rparr>]\<rparr>]\<rparr>)
               (''peeked at slot '' @ shown))
             \<lparr>current_player := player_id (players s ! (Suc ci mod length (players s)))\<rparr>"
      "apply_move store gid mv = (store(gid \<mapsto> s'), Inr (Accepted s' None))"
  | (call_cambio) ci ps s' where
      "turn_phase s \<noteq> ''round_end''"
      "move_type mv = Some ''call_cambio''"
      "index_where (\<lambda>p. player_id p = current_player s) (players s) = Some ci"
      "reveal_and_score (players s) = (ps, None)"
      "s' = append_history (s\<lparr>players := ps, turn_phase := ''round_end''\<rparr>) ''called Cambio!''"
      "apply_move store gid mv = (store(gid \<mapsto> s'), Inr (Accepted s' (Some True)))"
  | (cambio_raised) ci ps e where
      "turn_phase s \<noteq> ''round_end''"
      "move_type mv = Some ''call_cambio''"
      "index_where (\<lambda>p. player_id p = current_player s) (players s) = Some ci"
      "reveal_and_score (players s) = (ps, Some e)"
      "apply_move store gid mv = (store(gid \<mapsto> s\<lparr>players := ps\<rparr>), Inl e)"
proof (cases "validate_move store gid mv")
  case (Inl e)
  from apply_move_validation_raises [OF this] show thesis by (rule raised)
next
  case (Inr verdict)
  obtain ok r where verdict: "verdict = (ok, r)" by (cases verdict)
  show thesis
  proof (cases ok)
    case False
    with Inr verdict validate_move_reason [of store gid mv r] rejected show thesis
      by (auto simp: apply_move_rejected)
  next
    case True
    with Inr verdict have v: "validate_move store gid mv = Inr (True, r)" by simp
    from validate_move_True [OF v] assms
    have phase: "turn_phase s \<noteq> ''round_end''"
      and kinds: "move_type mv = Some ''draw_deck'' \<and> draw_pile_count s \<noteq> 0 \<or>
        move_type mv = Some ''draw_discard_swap'' \<and>
          (\<exists>d v. top_discard s = Some d \<and> d \<noteq> [] \<and> slot mv = Some v \<and>
                 invalid_slot (Some v) = Inr False) \<or>
        move_type mv = Some ''peek'' \<and>
          (\<exists>v. slot mv = Some v \<and> invalid_slot (Some v) = Inr False) \<or>
        move_type mv = Some ''call_cambio''"
      by auto
    show thesis
    proof (cases "index_where (\<lambda>p. player_id p = current_player s) (players s)")
      case None
      with v assms have "apply_move store gid mv = (store, Inl StopIteration)"
        by (simp add: apply_move_def)
      then show thesis by (rule raised)
    next
      case (Some ci)
      from kinds consider
          (a) "move_type mv = Some ''draw_deck''"
        | (b) d val where "move_type mv = Some ''draw_discard_swap''" "top_discard s = Some d"
            "d \<noteq> []" "slot mv = Some val" "invalid_slot (Some val) = Inr False"
        | (c) val where "move_type mv = Some ''peek''" "slot mv = Some val"
            "invalid_slot (Some val) = Inr False"
        | (d) "move_type mv = Some ''call_cambio''"
        by blast
      then show thesis
      proof cases
        case a
        show thesis
        proof (cases "draw_pile s")
          case Nil
          with a v assms Some have "apply_move store gid mv = (store, Inl IndexError)"
            by (simp add: apply_move_def)
          then show thesis by (rule raised)
        next
          case (Cons d rest)
          define s0 where "s0 = append_history
               (s\<lparr>draw_pile := rest, draw_pile_count := int (length rest),
                  top_discard := Some d\<rparr>) ''drew from deck''"
          have "switch_player store gid s0 ci =
                 (store(gid \<mapsto> s0\<lparr>current_player := player_id (players s0 ! (Suc ci mod length (players s)))\<rparr>),
                  Inr (Accepted (s0\<lparr>current_player := player_id (players s0 ! (Suc ci mod length (players s)))\<rparr>) None))"
            by (rule switch_player_updated [OF Some, where y = "players s ! ci"])
              (use index_where_SomeD [OF Some] in \<open>simp_all add: s0_def append_history_def\<close>)
          then have "apply_move store gid mv =
                 (store(gid \<mapsto> s0\<lparr>current_player := player_id (players s ! (Suc ci mod length (players s)))\<rparr>),
                  Inr (Accepted (s0\<lparr>current_player := player_id (players s ! (Suc ci mod length (players s)))\<rparr>) None))"
            by (simp add: apply_move_def v assms Some a Cons s0_def [symmetric])
              (simp add: s0_def append_history_def)
          then show thesis
            unfolding s0_def by (rule draw_deck [OF phase a Some Cons refl])
        qed
      next
        case b
        from valid_slot_index [OF b(5)] consider
            (float) "index_and_text val = None"
          | (index) n shown where "index_and_text val = Some (int n, shown)" "n \<le> 3"
          by auto
        then show thesis
        proof cases
          case float
          with b v assms Some have "apply_move store gid mv = (store, Inl TypeError)"
            by (simp add: apply_move_def)
          then show thesis by (rule raised)
        next
          case index
          from index(1) b(4) have si: "slot_index mv = Some (int n, shown)"
            by (simp add: slot_index_def)
          show thesis
          proof (cases "n < length (hand (players s ! ci))")
            case False
            with b index v assms Some have "apply_move store gid mv = (store, Inl IndexError)"
              by (simp add: apply_move_def py_position_valid)
            then show thesis by (rule raised)
          next
            case True
            define cur' where "cur' = (players s ! ci)\<lparr>hand := (hand (players s ! ci))
                                [n := \<lparr>card_str = d, visible = True\<rparr>]\<rparr>"
            define s0 where "s0 = append_history
                 (s\<lparr>players := (players s)[ci := cur'],
                    top_discard := Some (card_str (hand (players s ! ci) ! n))\<rparr>)
                 (''drew from discard and swapped slot '' @ shown)"
            have "switch_player store gid s0 ci =
                   (store(gid \<mapsto> s0\<lparr>current_player := player_id (players s0 ! (Suc ci mod length (players s)))\<rparr>),
                    Inr (Accepted (s0\<lparr>current_player := player_id (players s0 ! (Suc ci mod length (players s)))\<rparr>) None))"
              by (rule switch_player_updated [OF Some, where y = cur'])
                (use index_where_SomeD [OF Some] in \<open>simp_all add: s0_def cur'_def append_history_def\<close>)
            moreover have "player_id (players s0 ! j) = player_id (players s ! j)" for j
              using index_where_SomeD [OF Some]
              by (cases "j = ci") (simp_all add: s0_def cur'_def append_history_def)
            ultimately have "apply_move store gid mv =
                   (store(gid \<mapsto> s0\<lparr>current_player := player_id (players s ! (Suc ci mod length (players s)))\<rparr>),
                    Inr (Accepted (s0\<lparr>current_player := player_id (players s ! (Suc ci mod length (players s)))\<rparr>) None))"
              unfolding s0_def cur'_def
              by (simp add: apply_move_def v assms Some b index True py_position_valid Let_def)
            note am = this [unfolded s0_def cur'_def]
            show thesis
              by (rule swap [OF phase b(1) Some si index(2) True b(2,3) refl am])
          qed
        qed
      next
        case c
        from valid_slot_index [OF c(3)] consider
            (float) "index_and_text val = None"
          | (index) n shown where "index_and_text val = Some (int n, shown)" "n \<le> 3"
          by auto
        then show thesis
        proof cases
          case float
          with c v assms Some have "apply_move store gid mv = (store, Inl TypeError)"
            by (simp add: apply_move_def)
          then show thesis by (rule raised)
        next
          case index
          from index(1) c(2) have si: "slot_index mv = Some (int n, shown)"
            by (simp add: slot_index_def)
          show thesis
          proof (cases "n < length (hand (players s ! ci))")
            case False
            with c index v assms Some have "apply_move store gid mv = (store, Inl IndexError)"
              by (simp add: apply_move_def py_position_valid)
            then show thesis by (rule raised)
          next
            case True
            define cur' where "cur' = (players s ! ci)\<lparr>hand := (hand (players s ! ci))
                                [n := (hand (players s ! ci) ! n)\<lparr>visible := True\<rparr>]\<rparr>"
            define s0 where "s0 = append_history
                 (s\<lparr>players := (players s)[ci := cur']\<rparr>)
                 (''peeked at slot '' @ shown)"
            have "switch_player store gid s0 ci =
                   (store(gid \<mapsto> s0\<lparr>current_player := player_id (players s0 ! (Suc ci mod length (players s)))\<rparr>),
                    Inr (Accepted (s0\<lparr>current_player := player_id (players s0 ! (Suc ci mod length (players s)))\<rparr>) None))"
              by (rule switch_player_updated [OF Some, where y = cur'])
                (use index_where_SomeD [OF Some] in \<open>simp_all add: s0_def cur'_def append_history_def\<close>)
            moreover have "player_id (players s0 ! j) = player_id (players s ! j)" for j
              using index_where_SomeD [OF Some]
              by (cases "j = ci") (simp_all add: s0_def cur'_def append_history_def)
            ultimately have "apply_move store gid mv =
                   (store(gid \<mapsto> s0\<lparr>current_player := player_id (players s ! (Suc ci mod length (players s)))\<rparr>),
                    Inr (Accepted (s0\<lparr>current_player := player_id (players s ! (Suc ci mod length (players s)))\<rparr>) None))"
              unfolding s0_def cur'_def
              by (simp add: apply_move_def v assms Some c index True py_position_valid Let_def)
            note am = this [unfolded s0_def cur'_def]
            show thesis
              by (rule peek [OF phase c(1) Some si index(2) True refl am])
          qed
        qed
      next
        case d
        obtain ps r where rs: "reveal_and_score (players s) = (ps, r)"
          by (cases "reveal_and_score (players s)")
        show thesis
        proof (cases r)
          case None
          show thesis
            by (rule call_cambio [OF phase d Some rs [unfolded None] refl])
              (simp add: apply_move_def v assms Some d rs None Let_def)
        next
          case (Some e)
          show thesis
            by (rule cambio_raised [OF phase d \<open>index_where _ _ = Some ci\<close> rs [unfolded Some]])
              (simp add: apply_move_def v assms \<open>index_where _ _ = Some ci\<close> d rs Some)
        qed
      qed
    qed
  qed
qed

subsection \<open>The concrete session\<close>

lemmas move_defs = draw_deck_move_def swap_move_def peek_move_def call_cambio_move_def

lemmas slot_defs = check_slot_def invalid_slot_def less_than_int_def greater_than_int_def
  index_and_text_def slot_index_def

lemmas card_value_defs = get_card_value_def py_int_def parse_unsigned_def is_digit_def
  is_space_def digit_val_def

lemma example_created:
  "create_game Map.empty ''g1'' rev (Some [''Alice'', ''Bob'']) = (example_store, Inr ''g1'')"
  by (simp add: create_game_def effective_names_def create_deck_def ordered_deck_def
        ranks_def suits_def str_nat.simps example_store_def example_session_def)

lemma example_store_g1: "example_store ''g1'' = Some example_session"
  by (simp add: example_store_def)

lemma ended_store_g1: "ended_store ''g1'' = Some ended_session"
  by (simp add: ended_store_def)

lemma example_call_cambio:
  "apply_move example_store ''g1'' call_cambio_move =
     (ended_store, Inr (Accepted ended_session (Some True)))"
  by (simp add: apply_move_def validate_move_def example_store_def ended_store_def
        example_session_def ended_session_def move_defs append_history_def card_value_defs
        Let_def)

subsection \<open>Rejected moves\<close>

text \<open>
  C2. Once the turn phase of a session is \<open>round_end\<close>, every move submitted for it,
  of whatever kind, is rejected with the reason \<open>Round has ended\<close>, and the store (so
  the current player, the hands, the piles, the discard top and the history of the
  session) is exactly what it was; the same holds for any sequence of further moves.
\<close>

theorem round_end_is_terminal:
  assumes "store gid = Some s" and "turn_phase s = ''round_end''"
  shows "apply_move store gid mv = (store, Inr (Rejected (Some ''Round has ended'')))
       \<and> apply_moves store gid mvs =
           (store, replicate (length mvs) (Inr (Rejected (Some ''Round has ended''))))"
proof
  show one: "apply_move store gid mv = (store, Inr (Rejected (Some ''Round has ended'')))" for mv
    using assms by (simp add: apply_move_rejected validate_round_end)
  show "apply_moves store gid mvs =
           (store, replicate (length mvs) (Inr (Rejected (Some ''Round has ended''))))"
    by (induction mvs) (simp_all add: one)
qed

theorem round_end_is_terminal_witness:
  "fst (apply_move example_store ''g1'' call_cambio_move) = ended_store
   \<and> apply_move ended_store ''g1'' draw_deck_move =
       (ended_store, Inr (Rejected (Some ''Round has ended'')))
   \<and> apply_moves ended_store ''g1'' [peek_move 1, call_cambio_move] =
       (ended_store, [Inr (Rejected (Some ''Round has ended'')),
                      Inr (Rejected (Some ''Round has ended''))])"
  using round_end_is_terminal [of ended_store "''g1''" ended_session draw_deck_move
          "[peek_move 1, call_cambio_move]"]
  by (simp add: ended_store_g1 example_call_cambio) (simp add: ended_session_def)

text \<open>
  What holds of rejections: \<^verbatim>\<open>validate_move\<close> only reads the store (it is a function
  of the store, the id and the move, and returns nothing but its verdict), and whenever
  its verdict is negative, \<^verbatim>\<open>apply_move\<close> returns the dict with \<^verbatim>\<open>valid: False\<close> and
  the validator's reason, which is always a string, and leaves the store as it was.
\<close>

lemma rejection_is_reported:
  assumes "validate_move store gid mv = Inr (False, r)"
  shows "\<exists>reason. r = Some reason
           \<and> apply_move store gid mv = (store, Inr (Rejected (Some reason)))"
proof -
  from validate_move_reason [OF assms] obtain reason where "r = Some reason" ..
  with apply_move_rejected [OF assms] show ?thesis by simp
qed

text \<open>
  C6 does not hold of every move the service receives. The test of the slot,
  \<^verbatim>\<open>slot < 0\<close>, raises \<^verbatim>\<open>TypeError\<close> when the slot is a string, a list or a dict.
  So for a peek, or for a swap when there is a discard top, on a session whose round
  has not ended, such a move is not rejected with a reason: \<^verbatim>\<open>validate_move\<close> raises,
  \<^verbatim>\<open>apply_move\<close> raises with it (the store is left as it was), and
  \<^verbatim>\<open>POST /games/{game_id}/moves\<close> lets the exception escape.
\<close>

theorem non_numeric_slot_raises:
  assumes "store gid = Some s" and "turn_phase s \<noteq> ''round_end''"
    and "move_type mv = Some ''peek'' \<or>
         move_type mv = Some ''draw_discard_swap'' \<and> (\<exists>d. top_discard s = Some d \<and> d \<noteq> [])"
    and "slot mv = Some v" and "v = PyStr x \<or> v = PyList \<or> v = PyDict"
  shows "validate_move store gid mv = Inl TypeError
       \<and> apply_move store gid mv = (store, Inl TypeError)
       \<and> submit_move_endpoint store gid mv = (store, Unhandled TypeError)"
proof -
  from assms(4,5) have "check_slot (slot mv) = Inl TypeError"
    by (auto simp: check_slot_def invalid_slot_def less_than_int_def)
  with assms(1,2,3) have v: "validate_move store gid mv = Inl TypeError"
    by (auto simp: validate_move_def)
  from apply_move_validation_raises [OF this] v show ?thesis
    by (simp add: submit_move_endpoint_def)
qed

theorem non_numeric_slot_raises_witness:
  "validate_move example_store ''g1'' \<lparr>move_type = Some ''peek'', slot = Some (PyStr ''1'')\<rparr> =
     Inl TypeError
   \<and> apply_move example_store ''g1'' \<lparr>move_type = Some ''peek'', slot = Some (PyStr ''1'')\<rparr> =
       (example_store, Inl TypeError)
   \<and> submit_move_endpoint example_store ''g1''
        \<lparr>move_type = Some ''peek'', slot = Some (PyStr ''1'')\<rparr> =
       (example_store, Unhandled TypeError)
   \<and> apply_move example_store ''g1'' (peek_move 5) =
       (example_store, Inr (Rejected (Some ''Invalid slot'')))"
proof -
  have "turn_phase example_session \<noteq> ''round_end''" by (simp add: example_session_def)
  from non_numeric_slot_raises [of example_store "''g1''" example_session
      "\<lparr>move_type = Some ''peek'', slot = Some (PyStr ''1'')\<rparr>" "PyStr ''1''" "''1''",
      OF example_store_g1 this]
  have "validate_move example_store ''g1'' \<lparr>move_type = Some ''peek'', slot = Some (PyStr ''1'')\<rparr> =
     Inl TypeError
   \<and> apply_move example_store ''g1'' \<lparr>move_type = Some ''peek'', slot = Some (PyStr ''1'')\<rparr> =
       (example_store, Inl TypeError)
   \<and> submit_move_endpoint example_store ''g1''
        \<lparr>move_type = Some ''peek'', slot = Some (PyStr ''1'')\<rparr> =
       (example_store, Unhandled TypeError)"
    by simp
  moreover have "validate_move example_store ''g1'' (peek_move 5) =
      Inr (False, Some ''Invalid slot'')"
    by (simp add: validate_move_def example_store_g1 example_session_def peek_move_def
          check_slot_def invalid_slot_def less_than_int_def greater_than_int_def)
  from apply_move_rejected [OF this]
  have "apply_move example_store ''g1'' (peek_move 5) =
       (example_store, Inr (Rejected (Some ''Invalid slot'')))" .
  ultimately show ?thesis by simp
qed

subsection \<open>Sequences of moves\<close>

lemma apply_move_keeps_session:
  assumes "store gid = Some s" and "apply_move store gid mv = (store', r)"
  shows "\<exists>s'. store' gid = Some s'"
  using assms(1)
  by (cases rule: apply_move_cases [where mv = mv]) (use assms in auto)

lemma apply_moves_invariant:
  assumes step: "\<And>store mv store' r s t. store gid = Some s \<Longrightarrow> P s \<Longrightarrow>
            apply_move store gid mv = (store', r) \<Longrightarrow> store' gid = Some t \<Longrightarrow> P t"
    and "store gid = Some s" and "P s" and "apply_moves store gid mvs = (store', rs)"
  shows "\<exists>s'. store' gid = Some s' \<and> P s'"
  using assms(2-)
proof (induction mvs arbitrary: store s rs)
  case Nil
  then show ?case by simp
next
  case (Cons mv mvs)
  obtain store1 r where am: "apply_move store gid mv = (store1, r)"
    by (cases "apply_move store gid mv")
  from apply_move_keeps_session [OF Cons.prems(1) am]
  obtain t where t: "store1 gid = Some t" ..
  have "P t" by (rule step [OF Cons.prems(1,2) am t])
  moreover obtain rs' where "apply_moves store1 gid mvs = (store', rs')"
    using Cons.prems(3) am by (auto split: prod.splits)
  ultimately show ?case using Cons.IH [of store1 t rs'] t by blast
qed

lemma apply_move_count:
  assumes "store gid = Some s" and "draw_pile_count s = int (length (draw_pile s))"
    and "apply_move store gid mv = (store', r)" and "store' gid = Some t"
  shows "draw_pile_count t = int (length (draw_pile t))"
  using assms(1)
  by (cases rule: apply_move_cases [where mv = mv])
    (use assms in \<open>auto simp: append_history_def\<close>)

subsection \<open>Session creation\<close>

lemma deal_length: "deal deck idx i names = Inr ps \<Longrightarrow> length ps = length names"
  by (induction names arbitrary: idx i ps) (auto split: if_splits sum.splits)

lemma deal_error: "deal deck idx i names = Inl e \<Longrightarrow> e = IndexError"
  by (induction names arbitrary: idx i) (auto split: if_splits sum.splits)

lemma deal_succeeds_iff:
  "(\<exists>ps. deal deck idx i names = Inr ps) \<longleftrightarrow>
     names = [] \<or> idx + 4 * length names \<le> length deck"
proof (induction names arbitrary: idx i)
  case Nil
  show ?case by simp
next
  case (Cons nm nms)
  show ?case
  proof (cases "idx + 3 < length deck")
    case False
    then show ?thesis by simp
  next
    case True
    have "(\<exists>ps. deal deck idx i (nm # nms) = Inr ps) \<longleftrightarrow>
          (\<exists>ps. deal deck (idx + 4) (i + 1) nms = Inr ps)"
      using True by (auto split: sum.splits)
    also have "\<dots> \<longleftrightarrow> nms = [] \<or> idx + 4 + 4 * length nms \<le> length deck"
      by (rule Cons.IH)
    also have "\<dots> \<longleftrightarrow> idx + 4 * length (nm # nms) \<le> length deck"
      using True by auto
    finally show ?thesis by simp
  qed
qed

lemma create_game_session:
  assumes "create_game store new_id shuffle names = (store', Inr gid)"
  shows "gid = new_id \<and> (\<exists>ps. deal (create_deck shuffle) 0 0 (effective_names names) = Inr ps \<and>
          length ps = length (effective_names names) \<and>
          store' = store(new_id \<mapsto>
            \<lparr>game_id = new_id, variant = ''cambio_standard'', players = ps,
             draw_pile = drop (4 * length ps) (create_deck shuffle),
             draw_pile_count = int (length (drop (4 * length ps) (create_deck shuffle))),
             top_discard = None, current_player = ''p1'',
             turn_phase = ''awaiting_action'', history = [],
             metadata = \<lparr>started_at = ''2025-10-25T08:00:00Z'', round = 1\<rparr>\<rparr>))"
proof -
  obtain ps where ps: "deal (create_deck shuffle) 0 0 (effective_names names) = Inr ps"
    using assms
    by (cases "deal (create_deck shuffle) 0 0 (effective_names names)")
      (auto simp: create_game_def Let_def)
  with assms deal_length [OF ps] show ?thesis
    by (auto simp: create_game_def Let_def)
qed

subsection \<open>The count of the draw pile\<close>

text \<open>
  C9. After \<^verbatim>\<open>create_game\<close> has stored a session, and after any sequence of calls of
  \<^verbatim>\<open>apply_move\<close> on it (accepted, rejected or raising), the field
  \<open>draw_pile_count\<close> of the session is the length of its \<open>draw_pile\<close>.
\<close>

theorem draw_pile_count_is_length:
  assumes "create_game store new_id shuffle names = (store1, Inr gid)"
    and "apply_moves store1 gid mvs = (store2, rs)"
  shows "\<exists>s. store2 gid = Some s \<and> draw_pile_count s = int (length (draw_pile s))"
proof -
  from create_game_session [OF assms(1)] obtain s1
    where "store1 gid = Some s1" "draw_pile_count s1 = int (length (draw_pile s1))"
    by auto
  then show ?thesis
    using assms(2)
    by (rule apply_moves_invariant [where P = "\<lambda>s. draw_pile_count s = int (length (draw_pile s))",
          rotated 1]) (rule apply_move_count)
qed

theorem draw_pile_count_is_length_witness:
  "\<exists>s. fst (apply_moves example_store ''g1'' [draw_deck_move, peek_move 1]) ''g1'' = Some s
       \<and> draw_pile_count s = int (length (draw_pile s))"
  using draw_pile_count_is_length [OF example_created,
          of "[draw_deck_move, peek_move 1]"
             "fst (apply_moves example_store ''g1'' [draw_deck_move, peek_move 1])"
             "snd (apply_moves example_store ''g1'' [draw_deck_move, peek_move 1])"]
  by simp

subsection \<open>Cards in play\<close>

lemma hand_cards_update:
  "ci < length ps \<Longrightarrow>
     hand_cards (ps[ci := p']) + mset (map card_str (hand (ps ! ci))) =
     hand_cards ps + mset (map card_str (hand p'))"
  unfolding hand_cards_def
proof (induction ps arbitrary: ci)
  case Nil
  then show ?case by simp
next
  case (Cons p ps)
  show ?case
  proof (cases ci)
    case 0
    then show ?thesis by simp
  next
    case (Suc k)
    with Cons.prems have "k < length ps" by simp
    from Cons.IH [OF this] Suc show ?thesis by (simp add: ac_simps)
  qed
qed

lemma hand_cards_same_cards:
  assumes "ci < length ps" and "map card_str (hand p') = map card_str (hand (ps ! ci))"
  shows "hand_cards (ps[ci := p']) = hand_cards ps"
  using hand_cards_update [OF assms(1), of p'] assms(2) by simp

lemma reveal_and_score_cards:
  "reveal_and_score ps = (ps', r) \<Longrightarrow>
     map (\<lambda>p. map card_str (hand p)) ps' = map (\<lambda>p. map card_str (hand p)) ps"
proof (induction ps arbitrary: ps' r)
  case Nil
  then show ?case by simp
next
  case (Cons p ps)
  then show ?case
    by (auto simp: Let_def comp_def split: sum.splits prod.splits)
qed

lemma reveal_and_score_hand_cards:
  "reveal_and_score ps = (ps', r) \<Longrightarrow> hand_cards ps' = hand_cards ps"
proof -
  assume "reveal_and_score ps = (ps', r)"
  from reveal_and_score_cards [OF this]
  have "map mset (map (\<lambda>p. map card_str (hand p)) ps') =
        map mset (map (\<lambda>p. map card_str (hand p)) ps)" by simp
  then show ?thesis by (simp add: hand_cards_def comp_def)
qed

lemma exchange_cards:
  fixes A B H H' :: "'a multiset"
  assumes "A + H = B + H'" and "add_mset c H' = add_mset d H"
  shows "add_mset c A = add_mset d B"
proof -
  have "add_mset c A + (H + H') = (A + H) + add_mset c H'" by simp
  also have "\<dots> = (B + H') + add_mset d H" using assms by simp
  also have "\<dots> = add_mset d B + (H + H')" by simp
  finally show ?thesis by simp
qed

lemma peek_keeps_cards:
  "map card_str (h[k := (h ! k)\<lparr>visible := True\<rparr>]) = map card_str h"
proof (cases "k < length h")
  case True
  then show ?thesis by (intro nth_equalityI) (auto simp: nth_list_update)
next
  case False
  then have "h[k := (h ! k)\<lparr>visible := True\<rparr>] = h" by (intro list_update_beyond) simp
  then show ?thesis by simp
qed

lemma apply_move_result:
  assumes "apply_move store gid mv = (store', r)"
    and "apply_move store gid mv = (store(gid \<mapsto> s'), r')"
    and "store' gid = Some t"
  shows "t = s'" and "r = r'"
  using assms by auto

text \<open>What one call of \<^verbatim>\<open>apply_move\<close> does to the cards in play.\<close>

lemma apply_move_cards:
  assumes "store gid = Some s" and "apply_move store gid mv = (store', r)"
    and "store' gid = Some t"
  shows "cards_in_play t =
           (if move_type mv = Some ''draw_deck'' \<and> (\<exists>u. r = Inr (Accepted t u))
            then cards_in_play s - discard_cards s else cards_in_play s)"
  using assms(1)
proof (cases rule: apply_move_cases [where mv = mv])
  case (rejected r)
  with assms show ?thesis by auto
next
  case (raised e)
  with assms show ?thesis by auto
next
  case (draw_deck ci d rest s')
  note res = apply_move_result [OF assms(2) draw_deck(6) assms(3)]
  show ?thesis
    unfolding res draw_deck(5) using draw_deck(2,4)
    by (simp add: cards_in_play_def discard_cards_def append_history_def split: option.splits)
next
  case (swap ci k shown d s')
  note t = apply_move_result(1) [OF assms(2) swap(10) assms(3)]
  let ?h = "hand (players s ! ci)"
  from index_where_SomeD [OF swap(3)] have ci: "ci < length (players s)" by simp
  let ?p' = "(players s ! ci)\<lparr>hand := ?h[k := \<lparr>card_str = d, visible = True\<rparr>]\<rparr>"
  have "add_mset (card_str (?h ! k)) (mset (map card_str (hand ?p'))) =
        add_mset d (mset (map card_str ?h))"
    using swap(6) by (simp add: map_update mset_update)
  with hand_cards_update [OF ci, of ?p']
  have "add_mset (card_str (?h ! k)) (hand_cards ((players s)[ci := ?p'])) =
        add_mset d (hand_cards (players s))"
    by (rule exchange_cards)
  then have "hand_cards (players t) + {#card_str (?h ! k)#} = hand_cards (players s) + {#d#}"
    unfolding t swap(9) by (simp add: append_history_def)
  then show ?thesis
    unfolding t swap(9) using swap(2,7)
    by (simp add: cards_in_play_def discard_cards_def append_history_def)
next
  case (peek ci k shown s')
  note t = apply_move_result(1) [OF assms(2) peek(8) assms(3)]
  from index_where_SomeD [OF peek(3)] have ci: "ci < length (players s)" by simp
  have "hand_cards (players t) = hand_cards (players s)"
    unfolding t peek(7)
    by (simp add: append_history_def hand_cards_same_cards [OF ci] peek_keeps_cards)
  then show ?thesis
    unfolding t peek(7) using peek(2)
    by (simp add: cards_in_play_def discard_cards_def append_history_def)
next
  case (call_cambio ci ps s')
  note t = apply_move_result(1) [OF assms(2) call_cambio(6) assms(3)]
  show ?thesis
    unfolding t call_cambio(5)
    using reveal_and_score_hand_cards [OF call_cambio(4)] call_cambio(2)
    by (simp add: cards_in_play_def discard_cards_def append_history_def)
next
  case (cambio_raised ci ps e)
  note t = apply_move_result [OF assms(2) cambio_raised(5) assms(3)]
  show ?thesis
    unfolding t using reveal_and_score_hand_cards [OF cambio_raised(4)]
    by (simp add: cards_in_play_def discard_cards_def)
qed

lemma apply_move_cards_subset:
  assumes "store gid = Some s" and "cards_in_play s \<subseteq># M"
    and "apply_move store gid mv = (store', r)" and "store' gid = Some t"
  shows "cards_in_play t \<subseteq># M"
proof -
  have "cards_in_play t \<subseteq># cards_in_play s"
    unfolding apply_move_cards [OF assms(1,3,4)] by simp
  then show ?thesis using assms(2) by (rule subset_mset.order_trans)
qed

text \<open>The cards a new session holds are the cards of the deck it was dealt from.\<close>

lemma deal_four:
  "idx + 3 < length deck \<Longrightarrow>
     take 4 (drop idx deck) = [deck ! idx, deck ! (idx + 1), deck ! (idx + 2), deck ! (idx + 3)]"
  by (rule nth_equalityI) (auto simp: less_Suc_eq numeral_eq_Suc)

lemma deal_cards:
  "deal deck idx i names = Inr ps \<Longrightarrow>
     hand_cards ps = mset (take (4 * length names) (drop idx deck))"
proof (induction names arbitrary: idx i ps)
  case Nil
  then show ?case by (simp add: hand_cards_def)
next
  case (Cons nm nms)
  from Cons.prems have ok: "idx + 3 < length deck" by (simp split: if_splits)
  with Cons.prems obtain ps' where ps': "deal deck (idx + 4) (i + 1) nms = Inr ps'"
    and ps: "ps = \<lparr>player_id = ''p'' @ str_nat (i + 1), name = nm, seat = int i,
                   hand = [\<lparr>card_str = deck ! idx, visible = True\<rparr>,
                           \<lparr>card_str = deck ! (idx + 1), visible = False\<rparr>,
                           \<lparr>card_str = deck ! (idx + 2), visible = True\<rparr>,
                           \<lparr>card_str = deck ! (idx + 3), visible = False\<rparr>],
                   score = 0\<rparr> # ps'"
    by (auto split: sum.splits)
  have "take (4 * length (nm # nms)) (drop idx deck) =
        take 4 (drop idx deck) @ take (4 * length nms) (drop (idx + 4) deck)"
    by (simp add: take_add add.commute)
  then show ?case
    using Cons.IH [OF ps'] deal_four [OF ok]
    by (simp add: ps hand_cards_def)
qed

lemma create_game_cards:
  assumes "create_game store new_id shuffle names = (store', Inr gid)"
  shows "\<exists>s. store' gid = Some s \<and> cards_in_play s = mset (create_deck shuffle)"
proof -
  from create_game_session [OF assms] obtain ps s
    where ps: "deal (create_deck shuffle) 0 0 (effective_names names) = Inr ps"
      "length ps = length (effective_names names)"
      and s: "store' gid = Some s" "players s = ps" "top_discard s = None"
      "draw_pile s = drop (4 * length ps) (create_deck shuffle)"
    by auto
  have "mset (take (4 * length ps) (create_deck shuffle)) +
        mset (drop (4 * length ps) (create_deck shuffle)) = mset (create_deck shuffle)"
    by (simp only: mset_append [symmetric] append_take_drop_id)
  then have "cards_in_play s = mset (create_deck shuffle)"
    using deal_cards [OF ps(1)] ps(2) s(2-)
    by (simp add: cards_in_play_def discard_cards_def add.commute)
  with s(1) show ?thesis by simp
qed

lemma distinct_ordered_deck: "distinct ordered_deck \<and> length ordered_deck = 52"
  by (simp add: ordered_deck_def ranks_def suits_def)

text \<open>
  C1. Take any stored session and submit any sequence of moves for it. The cards the
  session then holds (draw pile, all hand slots, discard top) are, with multiplicity,
  among those it held at the start: no card has been gained, and if no card occurred
  twice at the start, none occurs twice now. One further call of \<^verbatim>\<open>apply_move\<close>
  leaves this multiset as it is, except that an accepted \<open>draw_deck\<close> removes the
  previous discard top, which it overwrites.
\<close>

theorem cards_never_gained_or_duplicated:
  assumes "store gid = Some s" and "apply_moves store gid mvs = (store', rs)"
  shows "\<exists>s'. store' gid = Some s' \<and> cards_in_play s' \<subseteq># cards_in_play s
           \<and> ((\<forall>c. count (cards_in_play s) c \<le> 1) \<longrightarrow> (\<forall>c. count (cards_in_play s') c \<le> 1))
           \<and> (\<forall>mv store'' r t. apply_move store' gid mv = (store'', r) \<longrightarrow>
                 store'' gid = Some t \<longrightarrow>
                 cards_in_play t =
                   (if move_type mv = Some ''draw_deck'' \<and> (\<exists>u. r = Inr (Accepted t u))
                    then cards_in_play s' - discard_cards s' else cards_in_play s'))"
proof -
  have "\<exists>s'. store' gid = Some s' \<and> cards_in_play s' \<subseteq># cards_in_play s"
    using assms(1) _ assms(2)
    by (rule apply_moves_invariant [where P = "\<lambda>t. cards_in_play t \<subseteq># cards_in_play s",
          rotated 1]) (auto intro: apply_move_cards_subset)
  then obtain s' where s': "store' gid = Some s'" "cards_in_play s' \<subseteq># cards_in_play s"
    by blast
  have "count (cards_in_play s') c \<le> 1" if "\<forall>c. count (cards_in_play s) c \<le> 1" for c
    using mset_subset_eq_count [OF s'(2), of c] that order_trans by blast
  moreover have "cards_in_play t =
                   (if move_type mv = Some ''draw_deck'' \<and> (\<exists>u. r = Inr (Accepted t u))
                    then cards_in_play s' - discard_cards s' else cards_in_play s')"
    if "apply_move store' gid mv = (store'', r)" "store'' gid = Some t" for mv store'' r t
    using s'(1) that by (rule apply_move_cards)
  ultimately show ?thesis using s' by blast
qed

lemma example_cards: "cards_in_play example_session = mset ordered_deck"
  using create_game_cards [OF example_created]
  by (simp add: example_store_g1 create_deck_def)

lemma example_no_duplicates: "count (cards_in_play example_session) c \<le> 1"
  using distinct_ordered_deck by (simp add: example_cards distinct_count_atmost_1)

theorem cards_never_gained_or_duplicated_witness:
  "\<exists>s'. fst (apply_moves example_store ''g1'' [draw_deck_move, swap_move 0, draw_deck_move])
           ''g1'' = Some s'
       \<and> cards_in_play s' \<subseteq># cards_in_play example_session
       \<and> (\<forall>c. count (cards_in_play s') c \<le> 1)
       \<and> (\<forall>store'' r t. apply_move
              (fst (apply_moves example_store ''g1'' [draw_deck_move, swap_move 0, draw_deck_move]))
              ''g1'' draw_deck_move = (store'', r) \<longrightarrow>
            store'' ''g1'' = Some t \<longrightarrow>
            cards_in_play t =
              (if \<exists>u. r = Inr (Accepted t u)
               then cards_in_play s' - discard_cards s' else cards_in_play s'))"
proof -
  define mvs where "mvs = [draw_deck_move, swap_move 0, draw_deck_move]"
  define st where "st = fst (apply_moves example_store ''g1'' mvs)"
  have run: "apply_moves example_store ''g1'' mvs = (st, snd (apply_moves example_store ''g1'' mvs))"
    by (simp only: st_def prod.collapse)
  from cards_never_gained_or_duplicated [of example_store "''g1''" example_session,
      OF example_store_g1 run]
  obtain s' where s': "st ''g1'' = Some s'"
    "cards_in_play s' \<subseteq># cards_in_play example_session"
    "(\<forall>c. count (cards_in_play example_session) c \<le> 1) \<longrightarrow>
       (\<forall>c. count (cards_in_play s') c \<le> 1)"
    "\<forall>mv store'' r t. apply_move st ''g1'' mv = (store'', r) \<longrightarrow>
       store'' ''g1'' = Some t \<longrightarrow>
       cards_in_play t =
         (if move_type mv = Some ''draw_deck'' \<and> (\<exists>u. r = Inr (Accepted t u))
          then cards_in_play s' - discard_cards s' else cards_in_play s')"
    by blast
  from s'(3) example_no_duplicates have "\<forall>c. count (cards_in_play s') c \<le> 1" by blast
  moreover have "move_type draw_deck_move = Some ''draw_deck''"
    by (simp add: draw_deck_move_def)
  with s'(4) have "\<forall>store'' r t. apply_move st ''g1'' draw_deck_move = (store'', r) \<longrightarrow>
       store'' ''g1'' = Some t \<longrightarrow>
       cards_in_play t =
         (if \<exists>u. r = Inr (Accepted t u)
          then cards_in_play s' - discard_cards s' else cards_in_play s')"
    by simp
  ultimately show ?thesis
    using s'(1,2) unfolding st_def mvs_def by blast
qed

subsection \<open>Swapping with the discard top\<close>

lemma drawn_store_g1: "drawn_store ''g1'' = Some drawn_session"
  by (simp add: drawn_store_def)

lemma example_draw_deck:
  "apply_move example_store ''g1'' draw_deck_move =
     (drawn_store, Inr (Accepted drawn_session None))"
  by (simp add: apply_move_def validate_move_def switch_player_def py_list_index_def
        example_store_def drawn_store_def example_session_def drawn_session_def move_defs
        append_history_def Let_def)

lemma example_swap:
  "apply_move drawn_store ''g1'' (swap_move 0) =
     (swapped_store, Inr (Accepted swapped_session None))"
  by (simp add: apply_move_def validate_move_def switch_player_def py_list_index_def
        check_slot_def invalid_slot_def less_than_int_def greater_than_int_def
        index_and_text_def py_position_def str_int_def str_nat.simps
        drawn_store_def swapped_store_def example_session_def drawn_session_def
        swapped_session_def move_defs append_history_def Let_def)


text \<open>
  C4. When \<open>draw_discard_swap\<close> is accepted, its slot is an index \<open>k\<close> from 0 to 3
  (an int, or a bool, which Python reads as 0 or 1),
  the discard top before the move was a card \<open>d\<close>, and afterwards slot \<open>k\<close> of the
  acting player (the first player whose id is the current player's) holds \<open>d\<close>, marked
  visible, the card that was in that slot is the new discard top, no other slot of any
  hand has changed, and the session holds the same cards as before, so as many.
\<close>

theorem draw_discard_swap_exchanges:
  assumes "store gid = Some s"
    and "move_type mv = Some ''draw_discard_swap''"
    and "apply_move store gid mv = (store', Inr (Accepted s' re))"
  shows "\<exists>ci k shown d.
             index_where (\<lambda>p. player_id p = current_player s) (players s) = Some ci
           \<and> slot_index mv = Some (int k, shown)
           \<and> k \<le> 3 \<and> k < length (hand (players s ! ci))
           \<and> top_discard s = Some d
           \<and> store' gid = Some s'
           \<and> hand (players s' ! ci) ! k = \<lparr>card_str = d, visible = True\<rparr>
           \<and> top_discard s' = Some (card_str (hand (players s ! ci) ! k))
           \<and> map hand (players s') =
               (map hand (players s))[ci := (hand (players s ! ci))[k := \<lparr>card_str = d, visible = True\<rparr>]]
           \<and> draw_pile s' = draw_pile s
           \<and> cards_in_play s' = cards_in_play s
           \<and> size (cards_in_play s') = size (cards_in_play s)"
  using assms(1)
proof (cases rule: apply_move_cases [where mv = mv])
  case (swap ci k shown d t)
  from index_where_SomeD [OF swap(3)] have ci: "ci < length (players s)" by simp
  from assms(3) swap(10) have s': "s' = t" and st: "store' gid = Some s'" by auto
  have cards: "cards_in_play s' = cards_in_play s"
    using apply_move_cards [OF assms(1,3) st] assms(2) by simp
  have "hand (players s' ! ci) ! k = \<lparr>card_str = d, visible = True\<rparr>"
    and "top_discard s' = Some (card_str (hand (players s ! ci) ! k))"
    and "map hand (players s') =
           (map hand (players s))[ci := (hand (players s ! ci))[k := \<lparr>card_str = d, visible = True\<rparr>]]"
    and "draw_pile s' = draw_pile s"
    using ci swap(6) by (simp_all add: s' swap(9) append_history_def map_update)
  note facts = this swap(3,4,5,6,7) st cards
  show ?thesis
    by (rule exI [of _ ci], rule exI [of _ k], rule exI [of _ shown], rule exI [of _ d])
      (simp add: facts)
qed (use assms in auto)

theorem draw_discard_swap_exchanges_witness:
  "drawn_store ''g1'' = Some drawn_session
   \<and> apply_move drawn_store ''g1'' (swap_move 0) =
       (swapped_store, Inr (Accepted swapped_session None))
   \<and> swapped_store ''g1'' = Some swapped_session
   \<and> top_discard drawn_session = Some ''5S''
   \<and> card_str (hand (players drawn_session ! 1) ! 0) = ''9S''
   \<and> hand (players swapped_session ! 1) ! 0 = \<lparr>card_str = ''5S'', visible = True\<rparr>
   \<and> top_discard swapped_session = Some ''9S''
   \<and> size (cards_in_play swapped_session) = size (cards_in_play drawn_session)"
proof -
  have mv: "move_type (swap_move 0) = Some ''draw_discard_swap''"
    by (simp add: swap_move_def)
  from draw_discard_swap_exchanges [OF drawn_store_g1 mv example_swap]
  obtain ci k shown d where
    "index_where (\<lambda>p. player_id p = current_player drawn_session) (players drawn_session) = Some ci"
    "slot_index (swap_move 0) = Some (int k, shown)" "top_discard drawn_session = Some d"
    "swapped_store ''g1'' = Some swapped_session"
    "hand (players swapped_session ! ci) ! k = \<lparr>card_str = d, visible = True\<rparr>"
    "top_discard swapped_session = Some (card_str (hand (players drawn_session ! ci) ! k))"
    "size (cards_in_play swapped_session) = size (cards_in_play drawn_session)"
    by blast
  moreover have "index_where (\<lambda>p. player_id p = current_player drawn_session)
                   (players drawn_session) = Some 1"
    by (simp add: drawn_session_def example_session_def)
  moreover have "slot_index (swap_move 0) = Some (int 0, ''0'')"
    by (simp add: swap_move_def slot_index_def index_and_text_def str_int_def str_nat.simps)
  moreover have "top_discard drawn_session = Some ''5S''"
    "card_str (hand (players drawn_session ! 1) ! 0) = ''9S''"
    by (simp_all add: drawn_session_def example_session_def)
  ultimately show ?thesis using drawn_store_g1 example_swap by simp
qed

subsection \<open>Player ids\<close>

lemma str_nat_nonempty: "str_nat n \<noteq> []"
  by (subst str_nat.simps) simp

lemma digit_chars_inj:
  "m < 10 \<Longrightarrow> n < 10 \<Longrightarrow> ''0123456789'' ! m = ''0123456789'' ! n \<Longrightarrow> m = n"
  by (subst (asm) nth_eq_iff_index_eq) simp_all

lemma str_nat_inj: "str_nat m = str_nat n \<Longrightarrow> m = n"
proof (induction m arbitrary: n rule: less_induct)
  case (less m)
  show ?case
  proof (cases "m < 10")
    case m: True
    show ?thesis
    proof (cases "n < 10")
      case True
      with m less.prems show ?thesis
        by (simp add: str_nat.simps [of m] str_nat.simps [of n] digit_chars_inj)
    next
      case False
      with m less.prems str_nat_nonempty [of "n div 10"] show ?thesis
        by (simp add: str_nat.simps [of m] str_nat.simps [of n] Cons_eq_append_conv)
    qed
  next
    case m: False
    show ?thesis
    proof (cases "n < 10")
      case True
      with m less.prems str_nat_nonempty [of "m div 10"] show ?thesis
        by (simp add: str_nat.simps [of m] str_nat.simps [of n] append_eq_Cons_conv)
    next
      case False
      with m less.prems have eq: "str_nat (m div 10) = str_nat (n div 10)"
        and d: "''0123456789'' ! (m mod 10) = ''0123456789'' ! (n mod 10)"
        by (simp_all add: str_nat.simps [of m] str_nat.simps [of n])
      from m have "m div 10 < m" by simp
      from less.IH [OF this eq] have "m div 10 = n div 10" .
      moreover from d have "m mod 10 = n mod 10" by (intro digit_chars_inj) simp_all
      ultimately show ?thesis by (metis div_mult_mod_eq)
    qed
  qed
qed

lemma distinct_player_ids: "distinct (player_ids i n)"
  unfolding player_ids_def
  by (simp add: distinct_map inj_on_def) (metis Suc_inject str_nat_inj)

lemma player_ids_Suc:
  "player_ids i (Suc n) = (''p'' @ str_nat (i + 1)) # player_ids (Suc i) n"
  by (simp add: player_ids_def upt_conv_Cons del: upt_Suc)

lemma deal_ids: "deal deck idx i names = Inr ps \<Longrightarrow> map player_id ps = player_ids i (length names)"
proof (induction names arbitrary: idx i ps)
  case Nil
  then show ?case by (simp add: player_ids_def)
next
  case (Cons nm nms)
  then obtain ps' where ps': "deal deck (idx + 4) (i + 1) nms = Inr ps'"
    and ps: "player_id (hd ps) = ''p'' @ str_nat (i + 1)" "tl ps = ps'" "ps \<noteq> []"
    by (auto split: if_splits sum.splits)
  from Cons.IH [OF ps'] ps show ?case
    by (cases ps) (simp_all add: player_ids_Suc)
qed

subsection \<open>Passing the turn\<close>

lemma update_hand_ids: "map player_id (ps[ci := (ps ! ci)\<lparr>hand := h\<rparr>]) = map player_id ps"
proof (cases "ci < length ps")
  case True
  then show ?thesis by (intro nth_equalityI) (auto simp: nth_list_update)
next
  case False
  then have "ps[ci := (ps ! ci)\<lparr>hand := h\<rparr>] = ps" by (intro list_update_beyond) simp
  then show ?thesis by simp
qed

lemma reveal_and_score_ids:
  "reveal_and_score ps = (ps', r) \<Longrightarrow> map player_id ps' = map player_id ps"
  by (induction ps arbitrary: ps' r) (auto simp: Let_def split: sum.splits prod.splits)

lemma apply_move_next:
  assumes "store gid = Some s" and "apply_move store gid mv = (store', Inr (Accepted s' None))"
  shows "\<exists>ci. index_where (\<lambda>p. player_id p = current_player s) (players s) = Some ci
           \<and> store' gid = Some s'
           \<and> map player_id (players s') = map player_id (players s)
           \<and> current_player s' = player_id (players s ! (Suc ci mod length (players s)))"
  using assms(1)
proof (cases rule: apply_move_cases [where mv = mv])
  case (draw_deck ci d rest t)
  with assms(2) show ?thesis by (auto simp: append_history_def)
next
  case (swap ci k shown d t)
  with assms(2) show ?thesis by (auto simp: append_history_def update_hand_ids)
next
  case (peek ci k shown t)
  with assms(2) show ?thesis by (auto simp: append_history_def update_hand_ids)
qed (use assms in auto)

lemma apply_move_stays:
  assumes "store gid = Some s" and "apply_move store gid mv = (store', r)"
    and "store' gid = Some t" and "\<not> passes_turn r"
  shows "map player_id (players t) = map player_id (players s) \<and>
         current_player t = current_player s"
  using assms(1)
proof (cases rule: apply_move_cases [where mv = mv])
  case (call_cambio ci ps t')
  with assms reveal_and_score_ids [OF call_cambio(4)] show ?thesis
    by (auto simp: append_history_def)
next
  case (cambio_raised ci ps e)
  with assms reveal_and_score_ids [OF cambio_raised(4)] show ?thesis
    by auto
qed (use assms in auto)

lemma index_of_id:
  assumes "map player_id ps = ids" and "distinct ids" and "j < length ids"
  shows "index_where (\<lambda>p. player_id p = ids ! j) ps = Some j"
proof (rule index_where_first)
  from assms(1,3) show j: "j < length ps" by auto
  from assms(1) j show "player_id (ps ! j) = ids ! j" by auto
  show "\<forall>i<j. \<not> player_id (ps ! i) = ids ! j"
  proof (intro allI impI)
    fix i assume "i < j"
    with assms have "ids ! i \<noteq> ids ! j" by (simp add: nth_eq_iff_index_eq)
    moreover from assms(1) \<open>i < j\<close> j have "player_id (ps ! i) = ids ! i" by auto
    ultimately show "\<not> player_id (ps ! i) = ids ! j" by simp
  qed
qed

lemma passes_turn_cases:
  obtains t where "r = Inr (Accepted t None)" | "\<not> passes_turn r"
  by (cases r rule: passes_turn.cases) auto

lemma apply_move_turn:
  assumes "store gid = Some s" and "map player_id (players s) = ids" and "distinct ids"
    and "j < length ids" and "current_player s = ids ! j"
    and "apply_move store gid mv = (store', r)" and "store' gid = Some t"
  shows "map player_id (players t) = ids \<and>
         current_player t = ids ! (if passes_turn r then Suc j mod length ids else j)"
proof (cases r rule: passes_turn_cases)
  case (1 t')
  from apply_move_next [OF assms(1) assms(6) [unfolded 1]] assms(7)
  obtain ci where ci: "index_where (\<lambda>p. player_id p = current_player s) (players s) = Some ci"
    and t: "t = t'" "map player_id (players t') = map player_id (players s)"
      "current_player t' = player_id (players s ! (Suc ci mod length (players s)))"
    by auto
  from index_of_id [OF assms(2,3,4)] ci assms(5) have "ci = j" by simp
  moreover have "length (players s) = length ids" using assms(2) by auto
  moreover have "0 < length ids" using assms(4) by (cases ids) simp_all
  then have "Suc j mod length ids < length ids" by (rule mod_less_divisor)
  then have "Suc j mod length ids < length (players s)" using assms(2) by auto
  then have "player_id (players s ! (Suc j mod length ids)) = ids ! (Suc j mod length ids)"
    unfolding assms(2) [symmetric] by (rule nth_map [symmetric])
  ultimately show ?thesis using t assms(2) 1 by simp
next
  case 2
  with apply_move_stays [OF assms(1,6,7)] assms(2,5) show ?thesis by simp
qed

lemma apply_moves_turn:
  assumes "distinct ids"
  shows "store gid = Some s \<Longrightarrow> map player_id (players s) = ids \<Longrightarrow> j < length ids \<Longrightarrow>
         current_player s = ids ! j \<Longrightarrow> apply_moves store gid mvs = (store', rs) \<Longrightarrow>
         \<exists>t. store' gid = Some t \<and> map player_id (players t) = ids \<and>
             current_player t = ids ! ((j + turns_taken rs) mod length ids)"
proof (induction mvs arbitrary: store s j rs)
  case Nil
  then show ?case by (simp add: turns_taken_def)
next
  case (Cons mv mvs)
  obtain store1 r where am: "apply_move store gid mv = (store1, r)"
    by (cases "apply_move store gid mv")
  from apply_move_keeps_session [OF Cons.prems(1) am]
  obtain t where t: "store1 gid = Some t" ..
  obtain rs' where run: "apply_moves store1 gid mvs = (store', rs')" and rs: "rs = r # rs'"
    using Cons.prems(5) am by (auto split: prod.splits)
  define j' where "j' = (if passes_turn r then Suc j mod length ids else j)"
  from apply_move_turn [OF Cons.prems(1,2) assms Cons.prems(3,4) am t]
  have t': "map player_id (players t) = ids" "current_player t = ids ! j'"
    by (simp_all add: j'_def)
  have "0 < length ids" using Cons.prems(3) by (cases ids) simp_all
  then have "Suc j mod length ids < length ids" by (rule mod_less_divisor)
  with Cons.prems(3) have "j' < length ids" by (simp add: j'_def)
  from Cons.IH [OF t t'(1) this t'(2) run]
  obtain u where u: "store' gid = Some u" "map player_id (players u) = ids"
    "current_player u = ids ! ((j' + turns_taken rs') mod length ids)"
    by blast
  have "(j' + turns_taken rs') mod length ids = (j + turns_taken rs) mod length ids"
    by (simp add: j'_def rs turns_taken_def mod_simps)
  with u show ?case by simp
qed

lemma effective_names_nonempty: "effective_names names \<noteq> []"
  by (simp add: effective_names_def split: option.splits)

lemma player_ids_nth: "m < n \<Longrightarrow> player_ids 0 n ! m = ''p'' @ str_nat (m + 1)"
  by (simp add: player_ids_def)

lemma created_turn:
  assumes "create_game store new_id shuffle names = (store1, Inr gid)"
    and "apply_moves store1 gid mvs = (store2, rs)"
  shows "\<exists>t. store2 gid = Some t
           \<and> map player_id (players t) = player_ids 0 (length (effective_names names))
           \<and> current_player t =
               ''p'' @ str_nat (turns_taken rs mod length (effective_names names) + 1)"
proof -
  define n where "n = length (effective_names names)"
  have n: "0 < n" using effective_names_nonempty [of names] by (simp add: n_def)
  from create_game_session [OF assms(1)] obtain s ps
    where s: "store1 gid = Some s" "players s = ps" "current_player s = ''p1''"
      and ps: "deal (create_deck shuffle) 0 0 (effective_names names) = Inr ps"
    by auto
  have ids: "map player_id (players s) = player_ids 0 n"
    using deal_ids [OF ps] s(2) by (simp add: n_def)
  have cur: "current_player s = player_ids 0 n ! 0"
    using n s(3) by (simp add: player_ids_nth str_nat.simps)
  have len: "length (player_ids 0 n) = n" by (simp add: player_ids_def)
  from apply_moves_turn [OF distinct_player_ids s(1) ids _ cur assms(2)] n len
  obtain t where t: "store2 gid = Some t" "map player_id (players t) = player_ids 0 n"
    "current_player t = player_ids 0 n ! (turns_taken rs mod n)"
    by auto
  from n have "turns_taken rs mod n < n" by (rule mod_less_divisor)
  with t show ?thesis by (auto simp: player_ids_nth n_def)
qed

text \<open>
  C5. A move that \<^verbatim>\<open>apply_move\<close> accepts without ending the round (its result has
  no \<^verbatim>\<open>round_end\<close> key: \<open>draw_deck\<close>, \<open>draw_discard_swap\<close> or \<open>peek\<close>) leaves the
  list of player ids as it is and makes the current player the one that follows the
  acting player in the player list, the first one after the last. For a session made
  by \<^verbatim>\<open>create_game\<close> for \<open>n\<close> players, whose ids are \<open>p1\<close> to \<open>pn\<close> in list order,
  the current player after any sequence of submitted moves is therefore \<open>p(k mod n + 1)\<close>,
  where \<open>k\<close> is the number of such accepted moves; with two players it is \<open>p1\<close> when
  \<open>k\<close> is even and \<open>p2\<close> when \<open>k\<close> is odd.
\<close>

theorem turn_passes_round_robin:
  "(\<forall>store gid s mv store' s'.
      store gid = Some s \<longrightarrow> apply_move store gid mv = (store', Inr (Accepted s' None)) \<longrightarrow>
      (\<exists>ci. index_where (\<lambda>p. player_id p = current_player s) (players s) = Some ci
         \<and> map player_id (players s') = map player_id (players s)
         \<and> current_player s' = player_id (players s' ! ((ci + 1) mod length (players s')))))
   \<and> (\<forall>store new_id shuffle names store1 gid mvs store2 rs.
        create_game store new_id shuffle names = (store1, Inr gid) \<longrightarrow>
        apply_moves store1 gid mvs = (store2, rs) \<longrightarrow>
        (\<exists>t. store2 gid = Some t
           \<and> map player_id (players t) = player_ids 0 (length (effective_names names))
           \<and> current_player t =
               ''p'' @ str_nat (turns_taken rs mod length (effective_names names) + 1)
           \<and> (length (effective_names names) = 2 \<longrightarrow>
               current_player t = (if even (turns_taken rs) then ''p1'' else ''p2''))))"
proof (intro conjI allI impI)
  fix store :: game_store and gid s mv store' s'
  assume a: "store gid = Some s" "apply_move store gid mv = (store', Inr (Accepted s' None))"
  from apply_move_next [OF a] obtain ci
    where ci: "index_where (\<lambda>p. player_id p = current_player s) (players s) = Some ci"
      and ids: "map player_id (players s') = map player_id (players s)"
      and cur: "current_player s' = player_id (players s ! (Suc ci mod length (players s)))"
    by blast
  from ids have len: "length (players s') = length (players s)"
    by (rule map_eq_imp_length_eq)
  from index_where_SomeD [OF ci] have "0 < length (players s)" by (cases "players s") simp_all
  then have lt: "Suc ci mod length (players s) < length (players s)" by (rule mod_less_divisor)
  have "player_id (players s' ! (Suc ci mod length (players s))) =
        player_id (players s ! (Suc ci mod length (players s)))"
    using lt len nth_map [of "Suc ci mod length (players s)" "players s'" player_id]
      nth_map [of "Suc ci mod length (players s)" "players s" player_id] ids
    by simp
  with ci ids cur len
  show "\<exists>ci. index_where (\<lambda>p. player_id p = current_player s) (players s) = Some ci
         \<and> map player_id (players s') = map player_id (players s)
         \<and> current_player s' = player_id (players s' ! ((ci + 1) mod length (players s')))"
    by simp
next
  fix store :: game_store and new_id shuffle names store1 gid mvs store2 rs
  assume a: "create_game store new_id shuffle names = (store1, Inr gid)"
    "apply_moves store1 gid mvs = (store2, rs)"
  from created_turn [OF a] obtain t where t: "store2 gid = Some t"
    "map player_id (players t) = player_ids 0 (length (effective_names names))"
    "current_player t = ''p'' @ str_nat (turns_taken rs mod length (effective_names names) + 1)"
    by blast
  have "current_player t = (if even (turns_taken rs) then ''p1'' else ''p2'')"
    if "length (effective_names names) = 2"
  proof (cases "even (turns_taken rs)")
    case True
    then have "turns_taken rs mod 2 = 0" by presburger
    with t(3) that True show ?thesis by (simp add: str_nat.simps)
  next
    case False
    then have "turns_taken rs mod 2 = 1" by presburger
    with t(3) that False show ?thesis by (simp add: str_nat.simps)
  qed
  with t show "\<exists>t. store2 gid = Some t
           \<and> map player_id (players t) = player_ids 0 (length (effective_names names))
           \<and> current_player t =
               ''p'' @ str_nat (turns_taken rs mod length (effective_names names) + 1)
           \<and> (length (effective_names names) = 2 \<longrightarrow>
               current_player t = (if even (turns_taken rs) then ''p1'' else ''p2''))"
    by blast
qed

lemma example_run:
  "apply_moves example_store ''g1'' [draw_deck_move, peek_move 7, swap_move 0] =
     (swapped_store,
      [Inr (Accepted drawn_session None), Inr (Rejected (Some ''Invalid slot'')),
       Inr (Accepted swapped_session None)])"
proof -
  have "validate_move drawn_store ''g1'' (peek_move 7) = Inr (False, Some ''Invalid slot'')"
    by (simp add: validate_move_def drawn_store_g1 drawn_session_def example_session_def
          peek_move_def slot_defs)
  from apply_move_rejected [OF this] show ?thesis
    by (simp add: example_draw_deck example_swap)
qed

theorem turn_passes_round_robin_witness:
  "apply_moves example_store ''g1'' [draw_deck_move, peek_move 7, swap_move 0] =
     (swapped_store,
      [Inr (Accepted drawn_session None), Inr (Rejected (Some ''Invalid slot'')),
       Inr (Accepted swapped_session None)])
   \<and> current_player example_session = ''p1''
   \<and> current_player drawn_session = ''p2''
   \<and> current_player swapped_session = ''p1''"
proof -
  let ?rs = "[Inr (Accepted drawn_session None), Inr (Rejected (Some ''Invalid slot'')),
       Inr (Accepted swapped_session None)]"
  note seq = turn_passes_round_robin [THEN conjunct2, rule_format,
      OF example_created example_run]
  then obtain t where t: "swapped_store ''g1'' = Some t"
    "length (effective_names (Some [''Alice'', ''Bob''])) = 2 \<longrightarrow>
       current_player t = (if even (turns_taken ?rs) then ''p1'' else ''p2'')"
    by (elim exE conjE)
  have "turns_taken ?rs = 2" by (simp add: turns_taken_def)
  with t have third: "current_player swapped_session = ''p1''"
    by (simp add: swapped_store_def effective_names_def)
  note step = turn_passes_round_robin [THEN conjunct1, rule_format,
      of example_store "''g1''" example_session, OF example_store_g1 example_draw_deck]
  then obtain ci where "index_where (\<lambda>p. player_id p = current_player example_session)
                     (players example_session) = Some ci"
    "current_player drawn_session =
       player_id (players drawn_session ! ((ci + 1) mod length (players drawn_session)))"
    by (elim exE conjE)
  then have second: "current_player drawn_session = ''p2''"
    by (simp add: example_session_def drawn_session_def)
  have first: "current_player example_session = ''p1''"
    by (simp add: example_session_def)
  from first second third example_run show ?thesis by simp
qed

subsection \<open>Scoring\<close>

lemma deck_card_cases:
  assumes "c \<in> set ordered_deck"
  obtains r x where "r \<in> set ranks" "c = r @ [x]"
  using assms by (auto simp: ordered_deck_def suits_def)

lemma get_card_value_spec:
  assumes "c \<in> set ordered_deck"
  shows "\<exists>v. spec_card_value c = Some v \<and> get_card_value c = Inr v"
proof -
  from assms obtain r x where r: "r \<in> set ranks" and c: "c = r @ [x]"
    by (rule deck_card_cases)
  have "\<exists>v. map_of spec_rank_values r = Some v \<and>
          (if r = ''K'' then Inr 0 else if r = ''Q'' then Inr 12 else if r = ''J'' then Inr 11
           else if r = ''A'' then Inr 1 else py_int r) = Inr v"
    using r
    by (auto simp: ranks_def spec_rank_values_def py_int_def parse_unsigned_def is_digit_def
          is_space_def digit_val_def)
  then show ?thesis
    by (simp add: c spec_card_value_def get_card_value_def)
qed

lemma hand_score_reveal: "hand_score (map (\<lambda>c. c\<lparr>visible := True\<rparr>) h) = hand_score h"
  by (induction h) (simp_all cong: sum.case_cong)

lemma hand_score_sum:
  "hand_score h = Inr v \<Longrightarrow>
     \<exists>vs. map (\<lambda>c. get_card_value (card_str c)) h = map Inr vs \<and> v = sum_list vs"
proof (induction h arbitrary: v)
  case Nil
  then show ?case by simp
next
  case (Cons c h)
  then obtain a b where a: "get_card_value (card_str c) = Inr a" and b: "hand_score h = Inr b"
    and v: "v = a + b"
    by (auto split: sum.splits)
  from Cons.IH [OF b] obtain vs
    where "map (\<lambda>c. get_card_value (card_str c)) h = map Inr vs" "b = sum_list vs"
    by blast
  with a v have "map (\<lambda>c. get_card_value (card_str c)) (c # h) = map Inr (a # vs) \<and>
                 v = sum_list (a # vs)"
    by simp
  then show ?case by blast
qed

lemma reveal_and_score_ok:
  "reveal_and_score ps = (ps', None) \<Longrightarrow>
     list_all2 (\<lambda>p p'. \<exists>v. hand_score (hand p) = Inr v \<and>
                  p' = p\<lparr>hand := map reveal (hand p), score := v\<rparr>) ps ps'"
proof (induction ps arbitrary: ps')
  case Nil
  then show ?case by simp
next
  case (Cons p ps)
  then show ?case
    by (auto simp: Let_def hand_score_reveal reveal_def [abs_def] split: sum.splits prod.splits)
qed

lemma spec_values:
  assumes "\<forall>c\<in>set h. card_str c \<in> set ordered_deck"
    and "map (\<lambda>c. get_card_value (card_str c)) h = map Inr vs"
  shows "map (\<lambda>c. spec_card_value (card_str c)) h = map Some vs"
  using assms
proof (induction h arbitrary: vs)
  case Nil
  then show ?case by simp
next
  case (Cons c h)
  then obtain v vs' where vs: "vs = v # vs'" and v: "get_card_value (card_str c) = Inr v"
    and rest: "map (\<lambda>c. get_card_value (card_str c)) h = map Inr vs'"
    by (cases vs) auto
  from Cons.prems(1) get_card_value_spec [of "card_str c"] v
  have "spec_card_value (card_str c) = Some v" by auto
  moreover from Cons.IH [OF _ rest] Cons.prems(1)
  have "map (\<lambda>c. spec_card_value (card_str c)) h = map Some vs'" by simp
  ultimately show ?case by (simp add: vs)
qed

subsection \<open>Calling Cambio\<close>

text \<open>
  C3. When \<open>call_cambio\<close> is accepted, the result carries \<^verbatim>\<open>round_end: True\<close>, the
  turn phase of the session is \<open>round_end\<close>, the current player is who it was, the
  history has grown by the one entry of this move, and for every player the hand is the
  old hand with every slot marked visible and the score is the sum of
  \<^verbatim>\<open>get_card_value\<close> over the cards of the hand. On the 52 cards of the deck
  \<^verbatim>\<open>get_card_value\<close> is the table of the specification (K 0, A 1, 2 to 10 at face
  value, J 11, Q 12), so for a hand of four deck cards the score is the sum of these
  four table values.
\<close>

theorem call_cambio_reveals_and_scores:
  assumes "store gid = Some s"
    and "move_type mv = Some ''call_cambio''"
    and "apply_move store gid mv = (store', Inr (Accepted s' re))"
  shows "re = Some True \<and> store' gid = Some s' \<and> turn_phase s' = ''round_end''
       \<and> current_player s' = current_player s
       \<and> history s' = history s @
            [\<lparr>turn = int (length (history s)) + 1, player = current_player s,
              action = ''called Cambio!''\<rparr>]
       \<and> length (players s') = length (players s)
       \<and> (\<forall>i<length (players s).
             hand (players s' ! i) = map reveal (hand (players s ! i))
           \<and> (\<forall>c\<in>set (hand (players s' ! i)). visible c)
           \<and> (\<exists>vs. map (\<lambda>c. get_card_value (card_str c)) (hand (players s' ! i)) = map Inr vs
                  \<and> score (players s' ! i) = sum_list vs)
           \<and> (length (hand (players s ! i)) = 4
                \<and> (\<forall>c\<in>set (hand (players s ! i)). card_str c \<in> set ordered_deck) \<longrightarrow>
               (\<exists>vs. length vs = 4
                  \<and> map (\<lambda>c. spec_card_value (card_str c)) (hand (players s' ! i)) = map Some vs
                  \<and> score (players s' ! i) = sum_list vs)))
       \<and> (\<forall>c\<in>set ordered_deck. \<exists>v. spec_card_value c = Some v \<and> get_card_value c = Inr v)"
  using assms(1)
proof (cases rule: apply_move_cases [where mv = mv])
  case (call_cambio ci ps t)
  from assms(3) call_cambio(6) have s': "s' = t" and re: "re = Some True"
    and st: "store' gid = Some s'" by auto
  note ok = reveal_and_score_ok [OF call_cambio(4)]
  have ps: "players s' = ps" by (simp add: s' call_cambio(5) append_history_def)
  from ok have len: "length ps = length (players s)" by (simp add: list_all2_lengthD)
  have each: "hand (ps ! i) = map reveal (hand (players s ! i))
           \<and> (\<forall>c\<in>set (hand (ps ! i)). visible c)
           \<and> (\<exists>vs. map (\<lambda>c. get_card_value (card_str c)) (hand (ps ! i)) = map Inr vs
                  \<and> score (ps ! i) = sum_list vs)
           \<and> (length (hand (players s ! i)) = 4
                \<and> (\<forall>c\<in>set (hand (players s ! i)). card_str c \<in> set ordered_deck) \<longrightarrow>
               (\<exists>vs. length vs = 4
                  \<and> map (\<lambda>c. spec_card_value (card_str c)) (hand (ps ! i)) = map Some vs
                  \<and> score (ps ! i) = sum_list vs))"
    if i: "i < length (players s)" for i
  proof -
    from list_all2_nthD [OF ok i] obtain v
      where v: "hand_score (hand (players s ! i)) = Inr v"
        and p': "ps ! i = (players s ! i)\<lparr>hand := map reveal (hand (players s ! i)), score := v\<rparr>"
      by blast
    have h: "hand (ps ! i) = map reveal (hand (players s ! i))" and sc: "score (ps ! i) = v"
      by (simp_all add: p')
    have vis: "\<forall>c\<in>set (hand (ps ! i)). visible c" by (simp add: h reveal_def)
    from hand_score_sum [OF v] obtain vs
      where vs: "map (\<lambda>c. get_card_value (card_str c)) (hand (players s ! i)) = map Inr vs"
        "v = sum_list vs"
      by blast
    then have code: "map (\<lambda>c. get_card_value (card_str c)) (hand (ps ! i)) = map Inr vs"
      by (simp add: h reveal_def comp_def)
    have "length vs = 4 \<and> map (\<lambda>c. spec_card_value (card_str c)) (hand (ps ! i)) = map Some vs"
      if wf: "length (hand (players s ! i)) = 4"
        "\<forall>c\<in>set (hand (players s ! i)). card_str c \<in> set ordered_deck"
    proof
      from vs(1) have "length (hand (players s ! i)) = length vs"
        by (rule map_eq_imp_length_eq)
      with wf(1) show "length vs = 4" by simp
      from wf(2) have "\<forall>c\<in>set (hand (ps ! i)). card_str c \<in> set ordered_deck"
        by (simp add: h reveal_def)
      then show "map (\<lambda>c. spec_card_value (card_str c)) (hand (ps ! i)) = map Some vs"
        using code by (rule spec_values)
    qed
    with h vis code vs(2) sc show ?thesis by blast
  qed
  have table: "\<forall>c\<in>set ordered_deck. \<exists>v. spec_card_value c = Some v \<and> get_card_value c = Inr v"
    using get_card_value_spec by blast
  have phase: "turn_phase s' = ''round_end''" and cur: "current_player s' = current_player s"
    and hist: "history s' = history s @
            [\<lparr>turn = int (length (history s)) + 1, player = current_player s,
              action = ''called Cambio!''\<rparr>]"
    by (simp_all add: s' call_cambio(5) append_history_def)
  note len' = len [folded ps]
  from each have hands: "\<forall>i<length (players s).
             hand (players s' ! i) = map reveal (hand (players s ! i))
           \<and> (\<forall>c\<in>set (hand (players s' ! i)). visible c)
           \<and> (\<exists>vs. map (\<lambda>c. get_card_value (card_str c)) (hand (players s' ! i)) = map Inr vs
                  \<and> score (players s' ! i) = sum_list vs)
           \<and> (length (hand (players s ! i)) = 4
                \<and> (\<forall>c\<in>set (hand (players s ! i)). card_str c \<in> set ordered_deck) \<longrightarrow>
               (\<exists>vs. length vs = 4
                  \<and> map (\<lambda>c. spec_card_value (card_str c)) (hand (players s' ! i)) = map Some vs
                  \<and> score (players s' ! i) = sum_list vs))"
    unfolding ps by blast
  show ?thesis
    by (intro conjI) (rule re st phase cur hist len' hands table)+
qed (use assms in auto)

theorem call_cambio_reveals_and_scores_witness:
  "apply_move example_store ''g1'' call_cambio_move =
     (ended_store, Inr (Accepted ended_session (Some True)))
   \<and> turn_phase ended_session = ''round_end''
   \<and> current_player ended_session = current_player example_session
   \<and> length (history ended_session) = length (history example_session) + 1
   \<and> map (\<lambda>c. spec_card_value (card_str c)) (hand (players ended_session ! 0)) =
       [Some 0, Some 12, Some 11, Some 10]
   \<and> score (players ended_session ! 0) = 0 + 12 + 11 + 10
   \<and> map (\<lambda>c. spec_card_value (card_str c)) (hand (players ended_session ! 1)) =
       [Some 9, Some 8, Some 7, Some 6]
   \<and> score (players ended_session ! 1) = 9 + 8 + 7 + 6"
proof -
  have mv: "move_type call_cambio_move = Some ''call_cambio''"
    by (simp add: call_cambio_move_def)
  note c = call_cambio_reveals_and_scores [OF example_store_g1 mv example_call_cambio]
  have n: "length (players example_session) = 2" by (simp add: example_session_def)
  have wf: "length (hand (players example_session ! i)) = 4 \<and>
            (\<forall>c\<in>set (hand (players example_session ! i)). card_str c \<in> set ordered_deck)"
    if "i < 2" for i
    using that
    by (auto simp: less_Suc_eq numeral_2_eq_2 example_session_def ordered_deck_def ranks_def
          suits_def)
  have spec0: "map (\<lambda>c. spec_card_value (card_str c)) (hand (players ended_session ! 0)) =
       [Some 0, Some 12, Some 11, Some 10]"
    and spec1: "map (\<lambda>c. spec_card_value (card_str c)) (hand (players ended_session ! 1)) =
       [Some 9, Some 8, Some 7, Some 6]"
    by (simp_all add: ended_session_def spec_card_value_def spec_rank_values_def)
  note hands = c [THEN conjunct2, THEN conjunct2, THEN conjunct2, THEN conjunct2,
      THEN conjunct2, THEN conjunct2, THEN conjunct1, rule_format]
  have i0: "0 < length (players example_session)" and i1: "1 < length (players example_session)"
    by (simp_all add: n)
  have w0: "length (hand (players example_session ! 0)) = 4 \<and>
            (\<forall>c\<in>set (hand (players example_session ! 0)). card_str c \<in> set ordered_deck)"
    by (rule wf) simp
  have w1: "length (hand (players example_session ! 1)) = 4 \<and>
            (\<forall>c\<in>set (hand (players example_session ! 1)). card_str c \<in> set ordered_deck)"
    by (rule wf) simp
  note h0 = hands [OF i0, THEN conjunct2, THEN conjunct2, THEN conjunct2, rule_format, OF w0]
  note h1 = hands [OF i1, THEN conjunct2, THEN conjunct2, THEN conjunct2, rule_format, OF w1]
  from h0 obtain vs0 where
    "map (\<lambda>c. spec_card_value (card_str c)) (hand (players ended_session ! 0)) = map Some vs0"
    "score (players ended_session ! 0) = sum_list vs0"
    by (elim exE conjE) simp
  with spec0 have s0: "score (players ended_session ! 0) = 0 + 12 + 11 + 10"
    by (auto simp: map_eq_Cons_conv)
  from h1 obtain vs1 where
    "map (\<lambda>c. spec_card_value (card_str c)) (hand (players ended_session ! 1)) = map Some vs1"
    "score (players ended_session ! 1) = sum_list vs1"
    by (elim exE conjE) simp
  with spec1 have s1: "score (players ended_session ! 1) = 9 + 8 + 7 + 6"
    by (auto simp: map_eq_Cons_conv)
  from c have "turn_phase ended_session = ''round_end''"
    "current_player ended_session = current_player example_session"
    "length (history ended_session) = length (history example_session) + 1"
    by simp_all
  with example_call_cambio spec0 spec1 s0 s1 show ?thesis by simp
qed

subsection \<open>Hands of created sessions\<close>

lemma deal_hand_lengths:
  "deal deck idx i names = Inr ps \<Longrightarrow> \<forall>p\<in>set ps. length (hand p) = 4"
  by (induction names arbitrary: idx i ps) (auto split: if_splits sum.splits)

lemma update_hand_lengths:
  assumes "length h = length (hand (ps ! ci))"
  shows "map (\<lambda>p. length (hand p)) (ps[ci := (ps ! ci)\<lparr>hand := h\<rparr>]) =
         map (\<lambda>p. length (hand p)) ps"
proof (cases "ci < length ps")
  case True
  then show ?thesis using assms by (intro nth_equalityI) (auto simp: nth_list_update)
next
  case False
  then have "ps[ci := (ps ! ci)\<lparr>hand := h\<rparr>] = ps" by (intro list_update_beyond) simp
  then show ?thesis by simp
qed

lemma reveal_and_score_hand_lengths:
  assumes "reveal_and_score ps = (ps', r)"
  shows "map (\<lambda>p. length (hand p)) ps' = map (\<lambda>p. length (hand p)) ps"
proof -
  from reveal_and_score_cards [OF assms]
  have "map length (map (\<lambda>p. map card_str (hand p)) ps') =
        map length (map (\<lambda>p. map card_str (hand p)) ps)" by simp
  then show ?thesis by (simp add: comp_def)
qed

lemma apply_move_hand_lengths:
  assumes "store gid = Some s" and "apply_move store gid mv = (store', r)"
    and "store' gid = Some t"
  shows "map (\<lambda>p. length (hand p)) (players t) = map (\<lambda>p. length (hand p)) (players s)"
  using assms(1)
proof (cases rule: apply_move_cases [where mv = mv])
  case (swap ci k shown d s')
  with assms show ?thesis by (auto simp: append_history_def update_hand_lengths)
next
  case (peek ci k shown s')
  with assms show ?thesis by (auto simp: append_history_def update_hand_lengths)
next
  case (call_cambio ci ps s')
  with assms reveal_and_score_hand_lengths [OF call_cambio(4)] show ?thesis
    by (auto simp: append_history_def)
next
  case (cambio_raised ci ps e)
  with assms reveal_and_score_hand_lengths [OF cambio_raised(4)] show ?thesis
    by auto
qed (use assms in \<open>auto simp: append_history_def\<close>)

lemma hand_in_hand_cards:
  "p \<in> set ps \<Longrightarrow> mset (map card_str (hand p)) \<subseteq># hand_cards ps"
proof (induction ps)
  case Nil
  then show ?case by simp
next
  case (Cons q ps)
  show ?case
  proof (cases "p = q")
    case True
    then show ?thesis by (simp add: hand_cards_def)
  next
    case False
    with Cons have "mset (map card_str (hand p)) \<subseteq># hand_cards ps" by simp
    also have "hand_cards ps \<subseteq># hand_cards (q # ps)" by (simp add: hand_cards_def)
    finally show ?thesis .
  qed
qed

lemma hand_card_in_play:
  assumes "p \<in> set (players s)" and "c \<in> set (hand p)"
  shows "card_str c \<in># cards_in_play s"
proof -
  from assms(2) have "card_str c \<in># mset (map card_str (hand p))" by simp
  with hand_in_hand_cards [OF assms(1)] have "card_str c \<in># hand_cards (players s)"
    by (rule mset_subset_eqD)
  then show ?thesis by (simp add: cards_in_play_def)
qed

text \<open>
  In a session made by \<^verbatim>\<open>create_game\<close> from a shuffled deck, every hand has four
  slots and holds cards of the deck, whatever moves have been submitted since.
\<close>

lemma created_hands:
  assumes "mset (shuffle ordered_deck) = mset ordered_deck"
    and "create_game store new_id shuffle names = (store1, Inr gid)"
    and "apply_moves store1 gid mvs = (store2, rs)"
  shows "\<exists>t. store2 gid = Some t \<and>
           (\<forall>p\<in>set (players t). length (hand p) = 4 \<and>
              (\<forall>c\<in>set (hand p). card_str c \<in> set ordered_deck))"
proof -
  define P where "P t \<longleftrightarrow> map (\<lambda>p. length (hand p)) (players t) = replicate (length (players t)) 4
      \<and> cards_in_play t \<subseteq># mset ordered_deck" for t
  from create_game_session [OF assms(2)] obtain s ps
    where s: "store1 gid = Some s" "players s = ps"
      and ps: "deal (create_deck shuffle) 0 0 (effective_names names) = Inr ps"
    by auto
  from create_game_cards [OF assms(2)] s(1) assms(1)
  have "cards_in_play s = mset ordered_deck" by (auto simp: create_deck_def)
  moreover from deal_hand_lengths [OF ps] s(2)
  have "map (\<lambda>p. length (hand p)) (players s) = replicate (length (players s)) 4"
    by (simp add: map_replicate_const [symmetric] cong: map_cong)
  ultimately have "P s" by (simp add: P_def)
  have step: "P t" if "store gid = Some s" "P s" "apply_move store gid mv = (store', r)"
    "store' gid = Some t" for store mv store' r s t
  proof -
    from apply_move_hand_lengths [OF that(1,3,4)]
    have "map (\<lambda>p. length (hand p)) (players t) = map (\<lambda>p. length (hand p)) (players s)" .
    moreover from this have "length (players t) = length (players s)"
      by (rule map_eq_imp_length_eq)
    moreover have "cards_in_play t \<subseteq># mset ordered_deck"
      using that(1) _ that(3,4) by (rule apply_move_cards_subset) (use that(2) in \<open>simp add: P_def\<close>)
    ultimately show ?thesis using that(2) by (simp add: P_def)
  qed
  have "\<exists>t. store2 gid = Some t \<and> P t"
    using s(1) \<open>P s\<close> assms(3)
    by (rule apply_moves_invariant [where P = P, rotated 1]) (rule step)
  then obtain t where t: "store2 gid = Some t" "P t" by blast
  have "length (hand p) = 4 \<and> (\<forall>c\<in>set (hand p). card_str c \<in> set ordered_deck)"
    if p: "p \<in> set (players t)" for p
  proof
    from t(2) have "map (\<lambda>p. length (hand p)) (players t) = replicate (length (players t)) 4"
      by (simp add: P_def)
    then have "set (map (\<lambda>p. length (hand p)) (players t)) \<subseteq> {4}"
      by (simp only: set_replicate_conv_if) simp
    with p show "length (hand p) = 4" by auto
    show "\<forall>c\<in>set (hand p). card_str c \<in> set ordered_deck"
    proof
      fix c assume "c \<in> set (hand p)"
      from hand_card_in_play [OF p this] t(2) have "card_str c \<in># mset ordered_deck"
        by (auto simp: P_def dest: mset_subset_eqD)
      then show "card_str c \<in> set ordered_deck" by simp
    qed
  qed
  with t(1) show ?thesis by blast
qed

subsection \<open>When session creation fails\<close>

lemma deal_names: "deal deck idx i names = Inr ps \<Longrightarrow> map name ps = names"
  by (induction names arbitrary: idx i ps) (auto split: if_splits sum.splits)

lemma deal_visible:
  "deal deck idx i names = Inr ps \<Longrightarrow>
     \<forall>p\<in>set ps. map visible (hand p) = [True, False, True, False] \<and> score p = 0"
  by (induction names arbitrary: idx i ps) (auto split: if_splits sum.splits)

lemma create_game_raises:
  assumes "create_game store new_id shuffle names = (store', Inl e)"
  shows "store' = store \<and> e = IndexError"
proof (cases "deal (create_deck shuffle) 0 0 (effective_names names)")
  case (Inl e')
  with assms deal_error [OF Inl] show ?thesis by (simp add: create_game_def Let_def)
next
  case (Inr ps)
  with assms show ?thesis by (simp add: create_game_def Let_def)
qed

text \<open>
  C7 as it is worded does not hold: with a single name, and with an empty list of
  names, fewer than two names are supplied and \<^verbatim>\<open>create_game\<close> succeeds.
\<close>

theorem create_game_single_name_counterexample:
  "length [''Solo''] < 2
   \<and> snd (create_game Map.empty ''g1'' rev (Some [''Solo''])) = Inr ''g1''
   \<and> length ([] :: string list) < 2
   \<and> snd (create_game Map.empty ''g1'' rev (Some [])) = Inr ''g1''"
  by (simp add: create_game_def effective_names_def create_deck_def ordered_deck_def
        ranks_def suits_def str_nat.simps)

text \<open>
  C7, as the code has it. \<^verbatim>\<open>create_game\<close> has no check on the number of names. A
  missing or empty list is replaced by the two default names, and a single name is
  dealt to like any other. With a deck of 52 cards the call fails exactly when the
  players, four cards each, need more than 52 cards, that is for more than 13 names: it
  then raises \<^verbatim>\<open>IndexError\<close> and stores nothing. In every other case it returns the new
  id and stores the initial session: the players in the order of the names with ids
  \<open>p1\<close>, \<open>p2\<close>, ..., four slots each of which the first and third are visible, score 0,
  the rest of the deck as draw pile with its count, no discard top, current player
  \<open>p1\<close>, phase \<open>awaiting_action\<close>, empty history.
\<close>

theorem create_game_fails_iff:
  assumes "mset (shuffle ordered_deck) = mset ordered_deck"
  shows "((\<exists>e. snd (create_game store new_id shuffle names) = Inl e) \<longleftrightarrow>
            52 < 4 * length (effective_names names))
       \<and> (52 < 4 * length (effective_names names) \<longrightarrow>
            create_game store new_id shuffle names = (store, Inl IndexError))
       \<and> (4 * length (effective_names names) \<le> 52 \<longrightarrow>
            (\<exists>s. create_game store new_id shuffle names = (store(new_id \<mapsto> s), Inr new_id)
               \<and> game_id s = new_id
               \<and> map name (players s) = effective_names names
               \<and> map player_id (players s) = player_ids 0 (length (effective_names names))
               \<and> (\<forall>p\<in>set (players s).
                     map visible (hand p) = [True, False, True, False] \<and> score p = 0)
               \<and> draw_pile s = drop (4 * length (effective_names names)) (shuffle ordered_deck)
               \<and> draw_pile_count s = 52 - 4 * int (length (effective_names names))
               \<and> top_discard s = None \<and> current_player s = ''p1''
               \<and> turn_phase s = ''awaiting_action'' \<and> history s = []
               \<and> cards_in_play s = mset ordered_deck))"
proof -
  define n where "n = length (effective_names names)"
  define deck where "deck = create_deck shuffle"
  have len: "length deck = 52"
    using mset_eq_length [OF assms] distinct_ordered_deck by (simp add: deck_def create_deck_def)
  have n: "effective_names names \<noteq> []" by (rule effective_names_nonempty)
  have dealt: "(\<exists>ps. deal deck 0 0 (effective_names names) = Inr ps) \<longleftrightarrow> 4 * n \<le> 52"
    using deal_succeeds_iff [of deck 0 0 "effective_names names"] n len by (simp add: n_def)
  have fails: "create_game store new_id shuffle names = (store, Inl IndexError)" if "52 < 4 * n"
  proof (cases "deal deck 0 0 (effective_names names)")
    case (Inl e)
    with deal_error [OF Inl] show ?thesis
      by (simp add: create_game_def Let_def deck_def)
  next
    case (Inr ps)
    with dealt that show ?thesis by auto
  qed
  have succeeds: "\<exists>s. create_game store new_id shuffle names = (store(new_id \<mapsto> s), Inr new_id)
               \<and> game_id s = new_id
               \<and> map name (players s) = effective_names names
               \<and> map player_id (players s) = player_ids 0 n
               \<and> (\<forall>p\<in>set (players s).
                     map visible (hand p) = [True, False, True, False] \<and> score p = 0)
               \<and> draw_pile s = drop (4 * n) (shuffle ordered_deck)
               \<and> draw_pile_count s = 52 - 4 * int n
               \<and> top_discard s = None \<and> current_player s = ''p1''
               \<and> turn_phase s = ''awaiting_action'' \<and> history s = []
               \<and> cards_in_play s = mset ordered_deck"
    if ok: "4 * n \<le> 52"
  proof -
    from dealt ok obtain ps where ps: "deal deck 0 0 (effective_names names) = Inr ps" by blast
    define s where "s = \<lparr>game_id = new_id, variant = ''cambio_standard'', players = ps,
             draw_pile = drop (4 * n) deck,
             draw_pile_count = int (length (drop (4 * n) deck)),
             top_discard = None, current_player = ''p1'',
             turn_phase = ''awaiting_action'', history = [],
             metadata = \<lparr>started_at = ''2025-10-25T08:00:00Z'', round = 1\<rparr>\<rparr>"
    have cg: "create_game store new_id shuffle names = (store(new_id \<mapsto> s), Inr new_id)"
      using ps by (simp add: create_game_def Let_def deck_def s_def n_def)
    from create_game_cards [OF cg] assms have cards: "cards_in_play s = mset ordered_deck"
      by (simp add: create_deck_def)
    have count: "draw_pile_count s = 52 - 4 * int n"
      using ok len by (simp add: s_def)
    have pile: "draw_pile s = drop (4 * n) (shuffle ordered_deck)"
      by (simp add: s_def deck_def create_deck_def)
    have gid: "game_id s = new_id" and top: "top_discard s = None"
      and cur: "current_player s = ''p1''" and phase: "turn_phase s = ''awaiting_action''"
      and hist: "history s = []"
      by (simp_all add: s_def)
    have names: "map name (players s) = effective_names names"
      and ids: "map player_id (players s) = player_ids 0 n"
      and slots: "\<forall>p\<in>set (players s).
                     map visible (hand p) = [True, False, True, False] \<and> score p = 0"
      using deal_names [OF ps] deal_ids [OF ps] deal_visible [OF ps]
      by (simp_all add: s_def n_def)
    show ?thesis
      by (intro exI [of _ s] conjI)
        (rule cg gid names ids slots pile count top cur phase hist cards)+
  qed
  have "(\<exists>e. snd (create_game store new_id shuffle names) = Inl e) \<longleftrightarrow> 52 < 4 * n"
  proof (cases "52 < 4 * n")
    case True
    with fails show ?thesis by simp
  next
    case False
    then have "4 * n \<le> 52" by simp
    from succeeds [OF this] False show ?thesis by auto
  qed
  with fails succeeds show ?thesis unfolding n_def by blast
qed

theorem create_game_fails_iff_witness:
  "create_game Map.empty ''g1'' rev (Some [''Alice'', ''Bob'']) = (example_store, Inr ''g1'')
   \<and> draw_pile_count example_session = 52 - 4 * 2
   \<and> create_game example_store ''g2'' rev (Some (replicate 14 ''Ann'')) =
       (example_store, Inl IndexError)
   \<and> (\<exists>s. create_game example_store ''g2'' rev (Some [''Solo'']) =
            (example_store(''g2'' \<mapsto> s), Inr ''g2'')
          \<and> map player_id (players s) = [''p1''] \<and> draw_pile_count s = 48)"
proof -
  have perm: "mset (rev ordered_deck) = mset ordered_deck" by simp
  note c = create_game_fails_iff [where shuffle = rev and store = example_store
      and new_id = "''g2''", OF perm]
  have big: "52 < 4 * length (effective_names (Some (replicate 14 ''Ann'')))"
    by (simp add: effective_names_def)
  have small: "4 * length (effective_names (Some [''Solo''])) \<le> 52"
    by (simp add: effective_names_def)
  from c [where names = "Some (replicate 14 ''Ann'')", THEN conjunct2, THEN conjunct1, rule_format, OF big]
  have a: "create_game example_store ''g2'' rev (Some (replicate 14 ''Ann'')) =
       (example_store, Inl IndexError)" .
  from c [where names = "Some [''Solo'']", THEN conjunct2, THEN conjunct2, rule_format, OF small]
  obtain s where "create_game example_store ''g2'' rev (Some [''Solo'']) =
            (example_store(''g2'' \<mapsto> s), Inr ''g2'')"
    "map player_id (players s) = player_ids 0 (length (effective_names (Some [''Solo''])))"
    "draw_pile_count s = 52 - 4 * int (length (effective_names (Some [''Solo''])))"
    by (elim exE conjE)
  then have b: "\<exists>s. create_game example_store ''g2'' rev (Some [''Solo'']) =
            (example_store(''g2'' \<mapsto> s), Inr ''g2'')
          \<and> map player_id (players s) = [''p1''] \<and> draw_pile_count s = 48"
    by (intro exI [of _ s]) (simp add: effective_names_def player_ids_def str_nat.simps)
  have "draw_pile_count example_session = 52 - 4 * 2" by (simp add: example_session_def)
  with a b example_created show ?thesis by simp
qed

subsection \<open>Patching a session\<close>

text \<open>
  C10. \<^verbatim>\<open>patch_state\<close> raises \<^verbatim>\<open>ValueError\<close> when, and only when, the id is not in
  the store, and then changes nothing; the endpoint \<^verbatim>\<open>PATCH /games/{game_id}\<close> turns
  this into status 404. For a stored session it always succeeds, whatever the turn
  phase: every field the patch names takes the patch's value, every other field keeps
  its own, the result is stored and returned, and the endpoint returns it. No rule is
  checked: for any session value whatever there is a patch that installs it.
\<close>

theorem patch_state_overwrites_unchecked:
  "(store gid = None \<longrightarrow>
      patch_state store gid patch = (store, Inl (ValueError (''Game '' @ gid @ '' not found'')))
    \<and> patch_game_endpoint store gid patch =
        (store, HTTPException 404 (Some (''Game '' @ gid @ '' not found''))))
   \<and> (\<forall>s. store gid = Some s \<longrightarrow>
        (\<exists>s'. patch_state store gid patch = (store(gid \<mapsto> s'), Inr s')
           \<and> patch_game_endpoint store gid patch = (store(gid \<mapsto> s'), Body s')
           \<and> game_id s' = (case p_game_id patch of None \<Rightarrow> game_id s | Some v \<Rightarrow> v)
           \<and> variant s' = (case p_variant patch of None \<Rightarrow> variant s | Some v \<Rightarrow> v)
           \<and> players s' = (case p_players patch of None \<Rightarrow> players s | Some v \<Rightarrow> v)
           \<and> draw_pile s' = (case p_draw_pile patch of None \<Rightarrow> draw_pile s | Some v \<Rightarrow> v)
           \<and> draw_pile_count s' =
               (case p_draw_pile_count patch of None \<Rightarrow> draw_pile_count s | Some v \<Rightarrow> v)
           \<and> top_discard s' = (case p_top_discard patch of None \<Rightarrow> top_discard s | Some v \<Rightarrow> v)
           \<and> current_player s' =
               (case p_current_player patch of None \<Rightarrow> current_player s | Some v \<Rightarrow> v)
           \<and> turn_phase s' = (case p_turn_phase patch of None \<Rightarrow> turn_phase s | Some v \<Rightarrow> v)
           \<and> history s' = (case p_history patch of None \<Rightarrow> history s | Some v \<Rightarrow> v)
           \<and> metadata s' = (case p_metadata patch of None \<Rightarrow> metadata s | Some v \<Rightarrow> v)))
   \<and> (\<forall>s t. store gid = Some s \<longrightarrow>
        (\<exists>full. patch_state store gid full = (store(gid \<mapsto> t), Inr t)))"
proof (intro conjI allI impI)
  assume "store gid = None"
  then show "patch_state store gid patch =
      (store, Inl (ValueError (''Game '' @ gid @ '' not found'')))"
    and "patch_game_endpoint store gid patch =
        (store, HTTPException 404 (Some (''Game '' @ gid @ '' not found'')))"
    by (simp_all add: patch_state_def patch_game_endpoint_def value_error_text_def)
next
  fix s assume s: "store gid = Some s"
  show "\<exists>s'. patch_state store gid patch = (store(gid \<mapsto> s'), Inr s')
           \<and> patch_game_endpoint store gid patch = (store(gid \<mapsto> s'), Body s')
           \<and> game_id s' = (case p_game_id patch of None \<Rightarrow> game_id s | Some v \<Rightarrow> v)
           \<and> variant s' = (case p_variant patch of None \<Rightarrow> variant s | Some v \<Rightarrow> v)
           \<and> players s' = (case p_players patch of None \<Rightarrow> players s | Some v \<Rightarrow> v)
           \<and> draw_pile s' = (case p_draw_pile patch of None \<Rightarrow> draw_pile s | Some v \<Rightarrow> v)
           \<and> draw_pile_count s' =
               (case p_draw_pile_count patch of None \<Rightarrow> draw_pile_count s | Some v \<Rightarrow> v)
           \<and> top_discard s' = (case p_top_discard patch of None \<Rightarrow> top_discard s | Some v \<Rightarrow> v)
           \<and> current_player s' =
               (case p_current_player patch of None \<Rightarrow> current_player s | Some v \<Rightarrow> v)
           \<and> turn_phase s' = (case p_turn_phase patch of None \<Rightarrow> turn_phase s | Some v \<Rightarrow> v)
           \<and> history s' = (case p_history patch of None \<Rightarrow> history s | Some v \<Rightarrow> v)
           \<and> metadata s' = (case p_metadata patch of None \<Rightarrow> metadata s | Some v \<Rightarrow> v)"
    by (rule exI [of _ "dict_update s patch"])
      (simp add: s patch_state_def patch_game_endpoint_def dict_update_def or_else_def)
next
  fix s t :: state assume s: "store gid = Some s"
  define full where "full = \<lparr>p_game_id = Some (game_id t), p_variant = Some (variant t),
      p_players = Some (players t), p_draw_pile = Some (draw_pile t),
      p_draw_pile_count = Some (draw_pile_count t), p_top_discard = Some (top_discard t),
      p_current_player = Some (current_player t), p_turn_phase = Some (turn_phase t),
      p_history = Some (history t), p_metadata = Some (metadata t)\<rparr>"
  have "dict_update s full = t"
    by (simp add: dict_update_def or_else_def full_def)
  with s have "patch_state store gid full = (store(gid \<mapsto> t), Inr t)"
    by (simp add: patch_state_def)
  then show "\<exists>full. patch_state store gid full = (store(gid \<mapsto> t), Inr t)" ..
qed

theorem patch_state_overwrites_unchecked_witness:
  "turn_phase ended_session = ''round_end''
   \<and> draw_pile_count ended_session = int (length (draw_pile ended_session))
   \<and> (\<exists>s'. patch_state ended_store ''g1'' reopen_patch = (ended_store(''g1'' \<mapsto> s'), Inr s')
          \<and> patch_game_endpoint ended_store ''g1'' reopen_patch =
              (ended_store(''g1'' \<mapsto> s'), Body s')
          \<and> turn_phase s' = ''awaiting_action''
          \<and> draw_pile_count s' = 0 \<and> length (draw_pile s') = 44
          \<and> players s' = players ended_session)
   \<and> patch_state ended_store ''g7'' reopen_patch =
       (ended_store, Inl (ValueError ''Game g7 not found''))
   \<and> patch_game_endpoint ended_store ''g7'' reopen_patch =
       (ended_store, HTTPException 404 (Some ''Game g7 not found''))"
proof -
  note p = patch_state_overwrites_unchecked [of ended_store _ reopen_patch]
  have none: "ended_store ''g7'' = None" by (simp add: ended_store_def)
  note missing = p [of "''g7''", THEN conjunct1, rule_format, OF none]
  from p [of "''g1''", THEN conjunct2, THEN conjunct1, rule_format, OF ended_store_g1]
  obtain s' where s': "patch_state ended_store ''g1'' reopen_patch = (ended_store(''g1'' \<mapsto> s'), Inr s')"
    "patch_game_endpoint ended_store ''g1'' reopen_patch = (ended_store(''g1'' \<mapsto> s'), Body s')"
    "players s' = (case p_players reopen_patch of None \<Rightarrow> players ended_session | Some v \<Rightarrow> v)"
    "draw_pile s' = (case p_draw_pile reopen_patch of None \<Rightarrow> draw_pile ended_session | Some v \<Rightarrow> v)"
    "draw_pile_count s' =
       (case p_draw_pile_count reopen_patch of None \<Rightarrow> draw_pile_count ended_session | Some v \<Rightarrow> v)"
    "turn_phase s' = (case p_turn_phase reopen_patch of None \<Rightarrow> turn_phase ended_session | Some v \<Rightarrow> v)"
    by (elim exE conjE)
  have "\<exists>s'. patch_state ended_store ''g1'' reopen_patch = (ended_store(''g1'' \<mapsto> s'), Inr s')
          \<and> patch_game_endpoint ended_store ''g1'' reopen_patch =
              (ended_store(''g1'' \<mapsto> s'), Body s')
          \<and> turn_phase s' = ''awaiting_action''
          \<and> draw_pile_count s' = 0 \<and> length (draw_pile s') = 44
          \<and> players s' = players ended_session"
    using s' by (intro exI [of _ s'])
      (simp add: reopen_patch_def ended_session_def example_session_def)
  moreover have "turn_phase ended_session = ''round_end''"
    "draw_pile_count ended_session = int (length (draw_pile ended_session))"
    by (simp_all add: ended_session_def example_session_def)
  ultimately show ?thesis using missing by simp
qed

subsection \<open>Moves for a game that does not exist\<close>

text \<open>
  C8 is not what the code does. For an id that is not in the store, \<^verbatim>\<open>validate_move\<close>
  answers \<open>Game not found\<close> like any other rejection, \<^verbatim>\<open>apply_move\<close> returns it as
  an invalid move, and \<^verbatim>\<open>POST /games/{game_id}/moves\<close> raises status 400 with that
  detail, the status of every illegal move, whereas \<^verbatim>\<open>GET /games/{game_id}\<close> answers
  404 for the same id.
\<close>

theorem submit_move_missing_game_is_400:
  assumes "store gid = None"
  shows "apply_move store gid mv = (store, Inr (Rejected (Some ''Game not found'')))
       \<and> submit_move_endpoint store gid mv = (store, HTTPException 400 (Some ''Game not found''))
       \<and> get_game_endpoint store gid = HTTPException 404 (Some ''Game not found'')"
proof -
  from assms have "validate_move store gid mv = Inr (False, Some ''Game not found'')"
    by (simp add: validate_move_def)
  from apply_move_rejected [OF this] assms show ?thesis
    by (simp add: submit_move_endpoint_def get_game_endpoint_def get_state_def)
qed

theorem submit_move_missing_game_is_400_witness:
  "submit_move_endpoint example_store ''g7'' draw_deck_move =
     (example_store, HTTPException 400 (Some ''Game not found''))
   \<and> get_game_endpoint example_store ''g7'' = HTTPException 404 (Some ''Game not found'')
   \<and> submit_move_endpoint example_store ''g1'' (peek_move 5) =
       (example_store, HTTPException 400 (Some ''Invalid slot''))"
proof -
  have "example_store ''g7'' = None" by (simp add: example_store_def)
  from submit_move_missing_game_is_400 [of example_store "''g7''" draw_deck_move, OF this]
  have "submit_move_endpoint example_store ''g7'' draw_deck_move =
     (example_store, HTTPException 400 (Some ''Game not found''))"
    "get_game_endpoint example_store ''g7'' = HTTPException 404 (Some ''Game not found'')"
    by simp_all
  moreover have "validate_move example_store ''g1'' (peek_move 5) =
      Inr (False, Some ''Invalid slot'')"
    by (simp add: validate_move_def example_store_g1 example_session_def peek_move_def
          slot_defs)
  from apply_move_rejected [OF this]
  have "submit_move_endpoint example_store ''g1'' (peek_move 5) =
       (example_store, HTTPException 400 (Some ''Invalid slot''))"
    by (simp add: submit_move_endpoint_def)
  ultimately show ?thesis by simp
qed

end
